theory Spec2Isabelle
  imports Complex_Main "HOL-Library.AList"
begin

section \<open>The word-search environment of textarena/envs/single\_player/WordSearch/env.py\<close>

text \<open>
  A shallow embedding of \<^verbatim>\<open>WordSearchEnv\<close>. Python integers are \<open>int\<close>, a Python list is
  a HOL list read and written with Python's indexing (a negative index counts from the
  end, an index out of range raises \<^verbatim>\<open>IndexError\<close>), an exception is the value \<open>None\<close>, a
  \<^verbatim>\<open>dict\<close> is an association list in insertion order, a \<^verbatim>\<open>set\<close> is a HOL set, and the
  attributes of \<^verbatim>\<open>self\<close> are the fields of a record that every method takes and returns.
  A word is a list of characters, and its length is the number of its characters; the
  code compares characters for equality and does nothing else with them.
\<close>

subsection \<open>Python lists\<close>

definition py_index :: "'a list \<Rightarrow> int \<Rightarrow> 'a option" where
  \<comment> \<open>\<^verbatim>\<open>xs[i]\<close>\<close>
  "py_index xs i =
     (let n = int (length xs); j = (if i < 0 then i + n else i)
      in if 0 \<le> j \<and> j < n then Some (xs ! nat j) else None)"

definition py_store :: "'a list \<Rightarrow> int \<Rightarrow> 'a \<Rightarrow> 'a list option" where
  \<comment> \<open>\<^verbatim>\<open>xs[i] = v\<close>\<close>
  "py_store xs i v =
     (let n = int (length xs); j = (if i < 0 then i + n else i)
      in if 0 \<le> j \<and> j < n then Some (xs[nat j := v]) else None)"

definition py_range :: "int \<Rightarrow> int list" where
  \<comment> \<open>\<^verbatim>\<open>range(n)\<close>\<close>
  "py_range n = [0..n - 1]"

definition py_enumerate :: "'a list \<Rightarrow> (int \<times> 'a) list" where
  \<comment> \<open>\<^verbatim>\<open>enumerate(xs)\<close>\<close>
  "py_enumerate xs = zip (map int [0..<length xs]) xs"

subsection \<open>Grid, directions, placements\<close>

type_synonym grid = "char list list"

datatype direction = across | down

type_synonym placement = "int \<times> int \<times> direction"

type_synonym placed = "(string \<times> placement) list"

type_synonym guess = "int \<times> int \<times> int \<times> int"

definition empty_marker :: char where
  "empty_marker = CHR ''.''"

definition grid_get :: "grid \<Rightarrow> int \<Rightarrow> int \<Rightarrow> char option" where
  \<comment> \<open>\<^verbatim>\<open>grid[row][col]\<close>\<close>
  "grid_get grid row col =
     (case py_index grid row of None \<Rightarrow> None | Some line \<Rightarrow> py_index line col)"

definition grid_set :: "grid \<Rightarrow> int \<Rightarrow> int \<Rightarrow> char \<Rightarrow> grid option" where
  \<comment> \<open>\<^verbatim>\<open>grid[row][col] = letter\<close>; the rows are separate lists, none is shared\<close>
  "grid_set grid row col letter =
     (case py_index grid row of
        None \<Rightarrow> None
      | Some line \<Rightarrow>
          (case py_store line col letter of
             None \<Rightarrow> None
           | Some line' \<Rightarrow> py_store grid row line'))"

fun cell_of :: "direction \<Rightarrow> int \<Rightarrow> int \<Rightarrow> int \<Rightarrow> int \<times> int" where
  \<comment> \<open>the cell of the \<open>i\<close>-th letter: \<^verbatim>\<open>[row][col + i]\<close> across, \<^verbatim>\<open>[row + i][col]\<close> down\<close>
  "cell_of across row col i = (row, col + i)"
| "cell_of down row col i = (row + i, col)"

subsection \<open>The environment\<close>

text \<open>
  Modelled from the spec: \<^verbatim>\<open>ta.State\<close> is textarena's core class and not part of the
  sources. The model keeps what the environment reads and writes of it: the board of
  \<^verbatim>\<open>game_state\<close>, and one flag per call of \<^verbatim>\<open>set_invalid_move\<close>, \<^verbatim>\<open>set_draw\<close> (the episode
  is DRAWN) and \<^verbatim>\<open>set_winners\<close> (the episode is WON). An episode with neither of the last
  two flags is IN\_PROGRESS. The rendered board and the observations are text for the
  player and are left out.
\<close>

record ta_state =
  board :: grid
  invalid_move :: bool
  drawn :: bool
  won :: bool

record env =
  num_incorrect_tries :: int
  words :: "string list"
  directions :: "(string \<times> direction) list"
  highlighted_positions :: "(int \<times> int) set"
  correct_words :: "string set"
  incorrect_attempts :: "guess list"
  placed_words :: placed
  game_board :: grid
  state :: ta_state

definition set_invalid_move :: "env \<Rightarrow> env" where
  "set_invalid_move e = e\<lparr>state := (state e)\<lparr>invalid_move := True\<rparr>\<rparr>"

definition set_draw :: "env \<Rightarrow> env" where
  "set_draw e = e\<lparr>state := (state e)\<lparr>drawn := True\<rparr>\<rparr>"

definition set_winners :: "env \<Rightarrow> env" where
  "set_winners e = e\<lparr>state := (state e)\<lparr>won := True\<rparr>\<rparr>"

definition state_reset :: "grid \<Rightarrow> ta_state" where
  \<comment> \<open>\<^verbatim>\<open>self.state.reset(game_state={"board": copy.deepcopy(self.game_board), ...})\<close>\<close>
  "state_reset g = \<lparr>board = g, invalid_move = False, drawn = False, won = False\<rparr>"

definition init :: env where
  \<comment> \<open>\<^verbatim>\<open>__init__\<close>: the attributes that \<^verbatim>\<open>_generate_word_search\<close> creates later start empty\<close>
  "init = \<lparr>num_incorrect_tries = 20, words = [], directions = [],
            highlighted_positions = {}, correct_words = {}, incorrect_attempts = [],
            placed_words = [], game_board = [], state = state_reset []\<rparr>"

subsection \<open>The random source and the library\<close>

text \<open>
  The module \<^verbatim>\<open>random\<close> is the only source of chance. Its draws are parameters of the
  model: the list \<^verbatim>\<open>random.sample\<close> returned, and the number each later call drew.
  \<^verbatim>\<open>random.choice(seq)\<close> is \<^verbatim>\<open>seq[randbelow(len(seq))]\<close>, and \<^verbatim>\<open>random.shuffle\<close> swaps
  \<^verbatim>\<open>x[i]\<close> with \<^verbatim>\<open>x[randbelow(i + 1)]\<close> for \<^verbatim>\<open>i\<close> from the last index down to 1. The word
  list itself (an nltk corpus) is not part of the sources, so the sample stands for it.

  Python's \<^verbatim>\<open>str.upper\<close> is in the same position: it follows the Unicode case tables, which
  are not part of the sources, and it may change the length of a word (the upper case of
  the sharp s is SS). It is a parameter as well, the field \<open>str_upper\<close>: any function on
  words. \<open>ascii_upper\<close> below is what it does on ASCII words.
\<close>

record random_source =
  sampled :: "string list"
  str_upper :: "string \<Rightarrow> string"
  direction_draw :: "nat \<Rightarrow> nat"
  shuffle_draw :: "nat \<Rightarrow> nat \<Rightarrow> nat"
  letter_draw :: "int \<Rightarrow> int \<Rightarrow> nat"

definition py_choice :: "'a list \<Rightarrow> nat \<Rightarrow> 'a" where
  "py_choice xs r = xs ! (r mod length xs)"

fun shuffle_from :: "(nat \<Rightarrow> nat) \<Rightarrow> nat \<Rightarrow> 'a list \<Rightarrow> 'a list" where
  "shuffle_from draw 0 xs = xs"
| "shuffle_from draw (Suc i) xs =
     (let j = draw (Suc i) mod (Suc i + 1)
      in shuffle_from draw i (xs[Suc i := xs ! j, j := xs ! Suc i]))"

definition py_shuffle :: "(nat \<Rightarrow> nat) \<Rightarrow> 'a list \<Rightarrow> 'a list" where
  "py_shuffle draw xs = shuffle_from draw (length xs - 1) xs"

definition ascii_uppercase :: string where
  "ascii_uppercase = ''ABCDEFGHIJKLMNOPQRSTUVWXYZ''"

definition ascii_upper_char :: "char \<Rightarrow> char" where
  \<comment> \<open>\<^verbatim>\<open>str.upper\<close> on one ASCII character\<close>
  "ascii_upper_char c =
     (if 97 \<le> (of_char c :: nat) \<and> (of_char c :: nat) \<le> 122
      then char_of ((of_char c :: nat) - 32) else c)"

definition ascii_upper :: "string \<Rightarrow> string" where
  \<comment> \<open>\<^verbatim>\<open>str.upper\<close> on a word of ASCII characters\<close>
  "ascii_upper w = map ascii_upper_char w"

subsection \<open>Grid generation\<close>

definition py_round :: "rat \<Rightarrow> int" where
  \<comment> \<open>Python 3's \<^verbatim>\<open>round\<close> of a float: to the nearest integer, a tie to the even one\<close>
  "py_round x =
     (let f = \<lfloor>x\<rfloor>; d = x - of_int f
      in if d < 1 / 2 then f else if 1 / 2 < d then f + 1
         else if even f then f else f + 1)"

definition py_max :: "nat list \<Rightarrow> nat option" where
  \<comment> \<open>\<^verbatim>\<open>max\<close> of a sequence; \<^verbatim>\<open>ValueError\<close> on an empty one\<close>
  "py_max xs = (case xs of [] \<Rightarrow> None | x # rest \<Rightarrow> Some (fold max rest x))"

definition determine_initial_grid_size :: "string list \<Rightarrow> int option" where
  \<comment> \<open>\<^verbatim>\<open>max_length * 1.5\<close> is exact in floating point for every length a string can have\<close>
  "determine_initial_grid_size ws =
     (case py_max (map length ws) of
        None \<Rightarrow> None
      | Some max_length \<Rightarrow> Some (py_round (of_nat max_length * (3 / 2))))"

definition create_empty_grid :: "int \<Rightarrow> grid" where
  "create_empty_grid n = replicate (nat n) (replicate (nat n) empty_marker)"

fun can_place_letters :: "grid \<Rightarrow> direction \<Rightarrow> int \<Rightarrow> int \<Rightarrow> int \<Rightarrow> string \<Rightarrow> bool option" where
  \<comment> \<open>the loop over \<^verbatim>\<open>enumerate(word)\<close>, from index \<open>i\<close> on\<close>
  "can_place_letters grid d row col i [] = Some True"
| "can_place_letters grid d row col i (letter # rest) =
     (case cell_of d row col i of (r, c) \<Rightarrow>
        (case grid_get grid r c of
           None \<Rightarrow> None
         | Some current_cell \<Rightarrow>
             if current_cell \<noteq> empty_marker \<and> current_cell \<noteq> letter then Some False
             else can_place_letters grid d row col (i + 1) rest))"

definition can_place_word :: "grid \<Rightarrow> string \<Rightarrow> direction \<Rightarrow> int \<Rightarrow> int \<Rightarrow> bool option" where
  "can_place_word grid word d row col =
     (case d of
        across \<Rightarrow>
          (case py_index grid 0 of
             None \<Rightarrow> None
           | Some line0 \<Rightarrow>
               if col + int (length word) > int (length line0) then Some False
               else can_place_letters grid across row col 0 word)
      | down \<Rightarrow>
          if row + int (length word) > int (length grid) then Some False
          else can_place_letters grid down row col 0 word)"

fun place_letters :: "grid \<Rightarrow> direction \<Rightarrow> int \<Rightarrow> int \<Rightarrow> int \<Rightarrow> string \<Rightarrow> grid option" where
  "place_letters grid d row col i [] = Some grid"
| "place_letters grid d row col i (letter # rest) =
     (case cell_of d row col i of (r, c) \<Rightarrow>
        (case grid_set grid r c letter of
           None \<Rightarrow> None
         | Some grid' \<Rightarrow> place_letters grid' d row col (i + 1) rest))"

definition place_word_on_grid :: "grid \<Rightarrow> string \<Rightarrow> direction \<Rightarrow> int \<Rightarrow> int \<Rightarrow> grid option" where
  "place_word_on_grid grid word d row col = place_letters grid d row col 0 word"

definition overlap_candidate ::
  "grid \<Rightarrow> (string \<times> direction) list \<Rightarrow> string \<Rightarrow> placement \<Rightarrow> int \<Rightarrow> char \<Rightarrow> int \<Rightarrow> char
     \<Rightarrow> placement list option" where
  \<comment> \<open>the body of the innermost loop of \<^verbatim>\<open>_find_overlaps\<close>: what it appends\<close>
  "overlap_candidate grid dirs word p i letter j placed_letter =
     (case p of (p_row, p_col, p_direction) \<Rightarrow>
        if letter = placed_letter then
          (case p_direction of
             across \<Rightarrow>
               (let row = p_row - i; col = p_col + j in
                  case map_of dirs word of
                    None \<Rightarrow> None
                  | Some wd \<Rightarrow>
                      if wd = down \<and> 0 \<le> row \<and> row < int (length grid) \<and>
                         0 \<le> col \<and> col < int (length (hd grid))
                      then (case can_place_word grid word down row col of
                              None \<Rightarrow> None
                            | Some ok \<Rightarrow> Some (if ok then [(row, col, down)] else []))
                      else Some [])
           | down \<Rightarrow>
               (let row = p_row + j; col = p_col - i in
                  case map_of dirs word of
                    None \<Rightarrow> None
                  | Some wd \<Rightarrow>
                      if wd = across \<and> 0 \<le> row \<and> row < int (length grid) \<and>
                         0 \<le> col \<and> col < int (length (hd grid))
                      then (case can_place_word grid word across row col of
                              None \<Rightarrow> None
                            | Some ok \<Rightarrow> Some (if ok then [(row, col, across)] else []))
                      else Some []))
        else Some [])"

definition find_overlaps ::
  "placed \<Rightarrow> string \<Rightarrow> grid \<Rightarrow> (string \<times> direction) list \<Rightarrow> placement list option" where
  "find_overlaps pws word grid dirs =
     map_option concat (those (concat (map (\<lambda>(placed_word, p).
        concat (map (\<lambda>(i, letter).
          map (\<lambda>(j, placed_letter). overlap_candidate grid dirs word p i letter j placed_letter)
            (py_enumerate placed_word))
          (py_enumerate word))) pws)))"

fun try_positions ::
  "string \<Rightarrow> placement list \<Rightarrow> grid \<times> placed \<Rightarrow> (bool \<times> grid \<times> placed) option" where
  \<comment> \<open>a loop over candidate positions that places the word at the first legal one and stops\<close>
  "try_positions word [] (grid, pws) = Some (False, grid, pws)"
| "try_positions word ((row, col, d) # rest) (grid, pws) =
     (case can_place_word grid word d row col of
        None \<Rightarrow> None
      | Some False \<Rightarrow> try_positions word rest (grid, pws)
      | Some True \<Rightarrow>
          (case place_word_on_grid grid word d row col of
             None \<Rightarrow> None
           | Some grid' \<Rightarrow> Some (True, grid', AList.update word (row, col, d) pws)))"

definition scan_positions :: "int \<Rightarrow> direction \<Rightarrow> placement list" where
  \<comment> \<open>the cells in the order the two nested loops of the fallback visit them\<close>
  "scan_positions grid_size d =
     concat (map (\<lambda>row. map (\<lambda>col. (row, col, d)) (py_range grid_size)) (py_range grid_size))"

definition first_position :: "int \<Rightarrow> string \<Rightarrow> direction \<Rightarrow> placement" where
  "first_position grid_size word d =
     (case d of
        across \<Rightarrow> (grid_size div 2, (grid_size - int (length word)) div 2, across)
      | down \<Rightarrow> ((grid_size - int (length word)) div 2, grid_size div 2, down))"

definition place_word ::
  "random_source \<Rightarrow> (string \<times> direction) list \<Rightarrow> int \<Rightarrow> nat \<Rightarrow> string \<Rightarrow> grid \<times> placed
     \<Rightarrow> (grid \<times> placed) option" where
  \<comment> \<open>the body of the loop over the words; \<open>k\<close> counts the words, for the shuffle's draws\<close>
  "place_word rnd dirs grid_size k word st =
     (case map_of dirs word of
        None \<Rightarrow> None
      | Some d \<Rightarrow>
          (case (if snd st = [] then try_positions word [first_position grid_size word d] st
                 else (case find_overlaps (snd st) word (fst st) dirs of
                         None \<Rightarrow> None
                       | Some possible_positions \<Rightarrow>
                           try_positions word
                             (py_shuffle (shuffle_draw rnd k) possible_positions) st)) of
             None \<Rightarrow> None
           | Some (True, st') \<Rightarrow> Some st'
           | Some (False, st') \<Rightarrow>
               (case try_positions word (scan_positions grid_size d) st' of
                  None \<Rightarrow> None
                | Some (b, st'') \<Rightarrow> Some st'')))"

fun place_words ::
  "random_source \<Rightarrow> (string \<times> direction) list \<Rightarrow> int \<Rightarrow> nat \<Rightarrow> string list \<Rightarrow> grid \<times> placed
     \<Rightarrow> (grid \<times> placed) option" where
  "place_words rnd dirs grid_size k [] st = Some st"
| "place_words rnd dirs grid_size k (word # rest) st =
     (case place_word rnd dirs grid_size k word st of
        None \<Rightarrow> None
      | Some st' \<Rightarrow> place_words rnd dirs grid_size (Suc k) rest st')"

fun fill_cells :: "random_source \<Rightarrow> (int \<times> int) list \<Rightarrow> grid \<Rightarrow> grid option" where
  "fill_cells rnd [] grid = Some grid"
| "fill_cells rnd ((row, col) # rest) grid =
     (case grid_get grid row col of
        None \<Rightarrow> None
      | Some c \<Rightarrow>
          if c = empty_marker then
            (case grid_set grid row col (py_choice ascii_uppercase (letter_draw rnd row col)) of
               None \<Rightarrow> None
             | Some grid' \<Rightarrow> fill_cells rnd rest grid')
          else fill_cells rnd rest grid)"

definition fill_empty_cells :: "random_source \<Rightarrow> grid \<Rightarrow> grid option" where
  "fill_empty_cells rnd grid =
     (case grid of
        [] \<Rightarrow> Some grid
      | line0 # others \<Rightarrow>
          fill_cells rnd
            (concat (map (\<lambda>row. map (\<lambda>col. (row, col)) (py_range (int (length line0))))
                       (py_range (int (length grid))))) grid)"

definition choose_directions :: "random_source \<Rightarrow> string list \<Rightarrow> (string \<times> direction) list" where
  \<comment> \<open>the dict comprehension: one draw per word of the list, a later entry replaces an earlier\<close>
  "choose_directions rnd ws =
     fold (\<lambda>(k, word). AList.update word (py_choice [across, down] (direction_draw rnd k)))
       (zip [0..<length ws] ws) []"

definition generate_word_search :: "random_source \<Rightarrow> env \<Rightarrow> (grid \<times> env) option" where
  "generate_word_search rnd e =
     (let ws = sort_key (\<lambda>w. - int (length w)) (map (str_upper rnd) (sampled rnd));
          dirs = choose_directions rnd ws;
          e1 = e\<lparr>words := ws, directions := dirs, highlighted_positions := {},
                 correct_words := {}, incorrect_attempts := []\<rparr>
      in case determine_initial_grid_size ws of
           None \<Rightarrow> None
         | Some grid_size \<Rightarrow>
             (case place_words rnd dirs grid_size 0 ws (create_empty_grid grid_size, []) of
                None \<Rightarrow> None
              | Some (grid, pws) \<Rightarrow>
                  (case fill_empty_cells rnd grid of
                     None \<Rightarrow> None
                   | Some grid' \<Rightarrow> Some (grid', e1\<lparr>placed_words := pws\<rparr>))))"

definition reset :: "random_source \<Rightarrow> env \<Rightarrow> env option" where
  "reset rnd e =
     (case generate_word_search rnd e of
        None \<Rightarrow> None
      | Some (grid, e') \<Rightarrow> Some (e'\<lparr>game_board := grid, state := state_reset grid\<rparr>))"

subsection \<open>Guess verification\<close>

definition extract_word :: "grid \<Rightarrow> int \<Rightarrow> int \<Rightarrow> int \<Rightarrow> int \<Rightarrow> string option" where
  "extract_word grid start_row start_col end_row end_col =
     (if start_row = end_row then
        those (map (\<lambda>col. grid_get grid start_row col)
                 [min start_col end_col..max start_col end_col])
      else if start_col = end_col then
        those (map (\<lambda>row. grid_get grid row start_col)
                 [min start_row end_row..max start_row end_row])
      else Some [])"

definition matches_position ::
  "string \<Rightarrow> int \<Rightarrow> int \<Rightarrow> direction \<Rightarrow> int \<Rightarrow> int \<Rightarrow> int \<Rightarrow> int \<Rightarrow> bool" where
  "matches_position word row col direction start_row start_col end_row end_col =
     (if direction = across \<and> row = start_row \<and> col = min start_col end_col then
        int (length word) = \<bar>end_col - start_col\<bar> + 1
      else if direction = down \<and> col = start_col \<and> row = min start_row end_row then
        int (length word) = \<bar>end_row - start_row\<bar> + 1
      else False)"

definition highlight_word :: "env \<Rightarrow> int \<Rightarrow> int \<Rightarrow> int \<Rightarrow> int \<Rightarrow> env" where
  "highlight_word e start_row start_col end_row end_col =
     (if start_row = end_row then
        e\<lparr>highlighted_positions := highlighted_positions e \<union>
             set (map (\<lambda>col. (start_row, col)) [min start_col end_col..max start_col end_col])\<rparr>
      else if start_col = end_col then
        e\<lparr>highlighted_positions := highlighted_positions e \<union>
             set (map (\<lambda>row. (row, start_col)) [min start_row end_row..max start_row end_row])\<rparr>
      else e)"

definition check_word ::
  "env \<Rightarrow> grid \<Rightarrow> int \<Rightarrow> int \<Rightarrow> int \<Rightarrow> int \<Rightarrow> (bool \<times> env) option" where
  \<comment> \<open>the word handed to \<^verbatim>\<open>_matches_position\<close> is the one extracted from the grid\<close>
  "check_word e grid start_row start_col end_row end_col =
     (case extract_word grid start_row start_col end_row end_col of
        None \<Rightarrow> None
      | Some word \<Rightarrow>
          (case find (\<lambda>(placed_word, row, col, direction).
                        matches_position word row col direction
                          start_row start_col end_row end_col) (placed_words e) of
             Some (placed_word, p) \<Rightarrow>
               Some (True,
                 highlight_word (e\<lparr>correct_words := insert placed_word (correct_words e)\<rparr>)
                   start_row start_col end_row end_col)
           | None \<Rightarrow>
               Some (False,
                 e\<lparr>incorrect_attempts :=
                     incorrect_attempts e @ [(start_row, start_col, end_row, end_col)]\<rparr>)))"

subsection \<open>One turn\<close>

definition in_bounds :: "grid \<Rightarrow> guess \<Rightarrow> bool option" where
  \<comment> \<open>the bounds test of \<^verbatim>\<open>step\<close>; \<^verbatim>\<open>and\<close> reads \<^verbatim>\<open>board[0]\<close> only after the row test passed\<close>
  "in_bounds b g =
     (case g of (start_row, start_col, end_row, end_col) \<Rightarrow>
        if \<not> (0 \<le> start_row \<and> start_row < int (length b)) then Some False
        else (case py_index b 0 of
                None \<Rightarrow> None
              | Some line \<Rightarrow>
                  Some (0 \<le> start_col \<and> start_col < int (length line) \<and>
                        0 \<le> end_row \<and> end_row < int (length b) \<and>
                        0 \<le> end_col \<and> end_col < int (length line))))"

datatype verdict = Out_Of_Bounds | Already_Attempted | Incorrect | Correct

definition step_match :: "env \<Rightarrow> guess \<Rightarrow> (verdict \<times> env) option" where
  \<comment> \<open>the body of the loop over the matches; every verdict but \<open>Correct\<close> ends the loop\<close>
  "step_match e g =
     (case in_bounds (board (state e)) g of
        None \<Rightarrow> None
      | Some False \<Rightarrow> Some (Out_Of_Bounds, set_invalid_move e)
      | Some True \<Rightarrow>
          if g \<in> set (incorrect_attempts e) then Some (Already_Attempted, set_invalid_move e)
          else
            (case g of (start_row, start_col, end_row, end_col) \<Rightarrow>
               (case check_word e (board (state e)) start_row start_col end_row end_col of
                  None \<Rightarrow> None
                | Some (False, e1) \<Rightarrow>
                    (let e2 = e1\<lparr>num_incorrect_tries := num_incorrect_tries e1 - 1\<rparr>
                     in Some (Incorrect, if num_incorrect_tries e2 = 0 then set_draw e2 else e2))
                | Some (True, e1) \<Rightarrow> Some (Correct, e1))))"

fun step_matches :: "env \<Rightarrow> guess list \<Rightarrow> env option" where
  "step_matches e [] = Some e"
| "step_matches e (g # gs) =
     (case step_match e g of
        None \<Rightarrow> None
      | Some (Correct, e') \<Rightarrow> step_matches e' gs
      | Some (v, e') \<Rightarrow> Some e')"

definition is_game_over :: "env \<Rightarrow> bool" where
  "is_game_over e = (card (correct_words e) = length (placed_words e))"

definition step :: "env \<Rightarrow> guess list \<Rightarrow> env option" where
  \<comment> \<open>\<open>matches\<close>: the coordinate tuples found in the action, in the order the loop visits them\<close>
  "step e matches =
     (if matches = [] then Some (set_invalid_move e)
      else (case step_matches e matches of
              None \<Rightarrow> None
            | Some e' \<Rightarrow> Some (if is_game_over e' then set_winners e' else e')))"

subsection \<open>The rounding rule the specification names\<close>

definition round_half_up :: "rat \<Rightarrow> int" where
  \<comment> \<open>the specification's words: "round half up, so 4.5 rounds to 5"; not what the code calls\<close>
  "round_half_up x = \<lfloor>x + 1 / 2\<rfloor>"

subsection \<open>Cells of a grid\<close>

definition in_grid :: "grid \<Rightarrow> int \<times> int \<Rightarrow> bool" where
  \<comment> \<open>a cell that \<^verbatim>\<open>grid[row][col]\<close> reads without wrapping around and without an exception\<close>
  "in_grid g p = (0 \<le> fst p \<and> fst p < int (length g) \<and> 0 \<le> snd p \<and>
                  snd p < int (length (g ! nat (fst p))))"

subsection \<open>Reading a placed word\<close>

definition cell_at :: "grid \<Rightarrow> int \<times> int \<Rightarrow> char" where
  \<comment> \<open>the character of a cell of the grid\<close>
  "cell_at g p = g ! nat (fst p) ! nat (snd p)"

definition holds :: "grid \<Rightarrow> string \<Rightarrow> placement \<Rightarrow> bool" where
  \<comment> \<open>every letter of the word lies in the grid at its cell\<close>
  "holds g w p = (case p of (row, col, d) \<Rightarrow>
     \<forall>i<length w. in_grid g (cell_of d row col (int i)) \<and>
                   cell_at g (cell_of d row col (int i)) = w ! i)"

definition read_word :: "grid \<Rightarrow> placement \<Rightarrow> nat \<Rightarrow> string option" where
  \<comment> \<open>reading \<open>n\<close> cells from the anchor along the direction, as \<^verbatim>\<open>grid[row][col]\<close> reads them\<close>
  "read_word g p n = (case p of (row, col, d) \<Rightarrow>
     those (map (\<lambda>i. case cell_of d row col (int i) of (r, c) \<Rightarrow> grid_get g r c) [0..<n]))"

definition placed_ok :: "grid \<Rightarrow> placed \<Rightarrow> bool" where
  \<comment> \<open>the invariant of the placement loop\<close>
  "placed_ok g pws = (\<forall>(w, p)\<in>set pws. empty_marker \<notin> set w \<and> holds g w p)"

definition nonneg_pos :: "placement \<Rightarrow> bool" where
  \<comment> \<open>a position whose anchor does not index from the end of a list\<close>
  "nonneg_pos p = (case p of (row, col, d) \<Rightarrow> 0 \<le> row \<and> 0 \<le> col)"

definition valid_pos :: "int \<Rightarrow> placement \<Rightarrow> bool" where
  \<comment> \<open>an anchor inside a square grid of side \<open>n\<close>\<close>
  "valid_pos n p = (case p of (row, col, d) \<Rightarrow> 0 \<le> row \<and> row < n \<and> 0 \<le> col \<and> col < n)"

subsection \<open>Episodes\<close>

inductive reachable :: "env \<Rightarrow> bool" where
  \<comment> \<open>the environments an instance can be in: after a reset, and after every turn from there\<close>
  after_reset: "reset rnd e0 = Some e \<Longrightarrow> reachable e"
| after_step: "reachable e \<Longrightarrow> step e matches = Some e' \<Longrightarrow> reachable e'"

definition index_inv :: "env \<Rightarrow> bool" where
  \<comment> \<open>the invariant of the episode: found words are indexed words, and WON means all found\<close>
  "index_inv e = (correct_words e \<subseteq> fst ` set (placed_words e) \<and>
                  distinct (map fst (placed_words e)) \<and>
                  (won (state e) \<longleftrightarrow> card (correct_words e) = length (placed_words e)))"

subsection \<open>A small episode\<close>

definition demo_source :: random_source where
  \<comment> \<open>one word sampled, every draw 0: the direction is across, every filler letter is A\<close>
  "demo_source = \<lparr>sampled = [''cat''], str_upper = ascii_upper, direction_draw = (\<lambda>k. 0),
                   shuffle_draw = (\<lambda>k i. 0), letter_draw = (\<lambda>row col. 0)\<rparr>"

definition demo_grid :: grid where
  "demo_grid = [''AAAA'', ''AAAA'', ''CATA'', ''AAAA'']"

definition demo_env :: env where
  \<comment> \<open>the environment after \<^verbatim>\<open>reset\<close> with the draws of \<open>demo_source\<close>\<close>
  "demo_env = \<lparr>num_incorrect_tries = 20, words = [''CAT''], directions = [(''CAT'', across)],
                highlighted_positions = {}, correct_words = {}, incorrect_attempts = [],
                placed_words = [(''CAT'', 2, 0, across)], game_board = demo_grid,
                state = state_reset demo_grid\<rparr>"

definition demo_found :: env where
  \<comment> \<open>\<open>demo_env\<close> after the guess that spans CAT\<close>
  "demo_found = demo_env\<lparr>highlighted_positions := {(2, 0), (2, 1), (2, 2)},
                          correct_words := {''CAT''}\<rparr>"

definition other_grid :: grid where
  \<comment> \<open>a grid of the shape of \<open>demo_grid\<close> with other letters in every cell\<close>
  "other_grid = [''ZZZZ'', ''ZZZZ'', ''ZZZZ'', ''ZZZZ'']"

definition dotted_source :: random_source where
  \<comment> \<open>as \<open>demo_source\<close>, but the sampled word holds the character of the empty marker\<close>
  "dotted_source = \<lparr>sampled = [''a.b''], str_upper = ascii_upper, direction_draw = (\<lambda>k. 0),
                     shuffle_draw = (\<lambda>k i. 0), letter_draw = (\<lambda>row col. 0)\<rparr>"

definition dotted_grid :: grid where
  "dotted_grid = [''AAAA'', ''AAAA'', ''AABA'', ''AAAA'']"

definition demo_won :: env where
  \<comment> \<open>\<open>demo_env\<close> after the turn that finds CAT, the only word\<close>
  "demo_won = set_winners demo_found"

definition demo_placed :: grid where
  \<comment> \<open>the grid of \<open>demo_source\<close> after placement, before the filler runs\<close>
  "demo_placed = [''....'', ''....'', ''CAT.'', ''....'']"

definition dotted_placed :: grid where
  \<comment> \<open>the grid of \<open>dotted_source\<close> after placement, before the filler runs\<close>
  "dotted_placed = [''....'', ''....'', ''A.B.'', ''....'']"

section \<open>Properties\<close>

subsection \<open>Python lists and the shape of the grid\<close>

lemma py_index_nonneg:
  "0 \<le> i \<Longrightarrow> py_index xs i = (if i < int (length xs) then Some (xs ! nat i) else None)"
  by (simp add: py_index_def Let_def)

lemma py_store_nonneg:
  "0 \<le> i \<Longrightarrow> py_store xs i v = (if i < int (length xs) then Some (xs[nat i := v]) else None)"
  by (simp add: py_store_def Let_def)

lemma py_store_length: "py_store xs i v = Some ys \<Longrightarrow> length ys = length xs"
  by (auto simp: py_store_def Let_def split: if_splits)

lemma grid_set_shape: "grid_set g r c v = Some g' \<Longrightarrow> map length g' = map length g"
  by (auto simp: grid_set_def py_store_def py_index_def Let_def map_update list_update_same_conv
      split: option.splits if_splits)

lemma place_letters_shape:
  "place_letters g d row col i w = Some g' \<Longrightarrow> map length g' = map length g"
  by (induction w arbitrary: g i) (auto split: option.splits prod.splits dest: grid_set_shape)

lemma try_positions_shape:
  "try_positions w ps (g, pws) = Some (b, g', pws') \<Longrightarrow> map length g' = map length g"
  by (induction ps)
    (auto simp: place_word_on_grid_def split: option.splits bool.splits dest: place_letters_shape)

lemma place_word_shape:
  "place_word rnd dirs n k w (g, pws) = Some (g', pws') \<Longrightarrow> map length g' = map length g"
  by (auto simp: place_word_def split: option.splits bool.splits if_splits
      dest!: try_positions_shape)

lemma place_words_shape:
  "place_words rnd dirs n k ws (g, pws) = Some (g', pws') \<Longrightarrow> map length g' = map length g"
proof (induction ws arbitrary: g pws k)
  case Nil
  then show ?case by simp
next
  case (Cons w ws)
  then show ?case
    by (auto split: option.splits dest!: place_word_shape)
qed

lemma fill_cells_shape: "fill_cells rnd ps g = Some g' \<Longrightarrow> map length g' = map length g"
  by (induction ps arbitrary: g) (auto split: option.splits if_splits dest: grid_set_shape)

lemma fill_empty_cells_shape:
  "fill_empty_cells rnd g = Some g' \<Longrightarrow> map length g' = map length g"
  by (auto simp: fill_empty_cells_def split: list.splits dest: fill_cells_shape)

lemma create_empty_grid_shape:
  "map length (create_empty_grid n) = replicate (nat n) (nat n)"
  by (simp add: create_empty_grid_def)

subsection \<open>The size of the grid\<close>

lemma py_max_eq: "py_max xs = (if xs = [] then None else Some (Max (set xs)))"
proof (cases xs)
  case Nil
  then show ?thesis by (simp add: py_max_def)
next
  case (Cons a list)
  have "fold max list a = Max (set (a # list))"
    by (rule Max.set_eq_fold[symmetric])
  then show ?thesis using Cons by (simp add: py_max_def)
qed

lemma py_round_ge_floor: "\<lfloor>x\<rfloor> \<le> py_round x"
  by (simp add: py_round_def Let_def)

lemma py_round_ge: "of_int m \<le> x \<Longrightarrow> m \<le> py_round x"
proof -
  assume "of_int m \<le> x"
  then have "m \<le> \<lfloor>x\<rfloor>" by (simp add: le_floor_iff)
  then show ?thesis using py_round_ge_floor[of x] by linarith
qed

lemma grid_size_ge: "int m \<le> py_round (of_nat m * (3 / 2))"
  by (rule py_round_ge) (simp add: field_simps)

lemma length_ascii_upper: "length (ascii_upper w) = length w"
  by (simp add: ascii_upper_def)

lemma generate_demo:
  "generate_word_search demo_source init =
     Some (demo_grid, demo_env\<lparr>game_board := [], state := state_reset []\<rparr>)"
  by code_simp

lemma reset_demo: "reset demo_source init = Some demo_env"
  by code_simp

lemma generated_shape:
  assumes "generate_word_search rnd e = Some (grid, e')"
  shows "words e' = sort_key (\<lambda>w. - int (length w)) (map (str_upper rnd) (sampled rnd)) \<and>
         words e' \<noteq> [] \<and>
         int (length grid) = py_round (of_nat (Max (length ` set (words e'))) * (3 / 2)) \<and>
         list_all (\<lambda>line. length line = length grid) grid"
proof -
  define ws where "ws = sort_key (\<lambda>w. - int (length w)) (map (str_upper rnd) (sampled rnd))"
  from assms obtain n g1 pws where
    n: "determine_initial_grid_size ws = Some n" and
    pl: "place_words rnd (choose_directions rnd ws) n 0 ws (create_empty_grid n, []) = Some (g1, pws)" and
    fl: "fill_empty_cells rnd g1 = Some grid" and
    we: "words e' = ws"
    by (auto simp: generate_word_search_def Let_def ws_def split: option.splits prod.splits)
  have ne: "ws \<noteq> []" and nval: "n = py_round (of_nat (Max (set (map length ws))) * (3 / 2))"
    using n by (auto simp: determine_initial_grid_size_def py_max_eq split: if_splits)
  have shape: "map length grid = replicate (nat n) (nat n)"
    using place_words_shape[OF pl] fill_empty_cells_shape[OF fl] create_empty_grid_shape by simp
  have len: "length grid = nat n"
    using arg_cong[OF shape, of length] by simp
  have rows: "list_all (\<lambda>line. length line = nat n) grid"
    using shape by (metis (mono_tags, lifting) Ball_set in_set_replicate list.set_map imageI)
  have "0 \<le> n"
    unfolding nval using grid_size_ge[of "Max (set (map length ws))"] by simp
  show ?thesis using we ne nval len rows \<open>0 \<le> n\<close> by (simp add: ws_def)
qed

subsection \<open>Filling the empty cells\<close>

lemma grid_set_in_range:
  "0 \<le> r \<Longrightarrow> r < int (length g) \<Longrightarrow> 0 \<le> c \<Longrightarrow> c < int (length (g ! nat r)) \<Longrightarrow>
   grid_set g r c v = Some (g[nat r := (g ! nat r)[nat c := v]])"
  by (simp add: grid_set_def py_index_nonneg py_store_nonneg)

lemma py_choice_in: "xs \<noteq> [] \<Longrightarrow> py_choice xs r \<in> set xs"
  by (simp add: py_choice_def)

lemma marker_not_uppercase: "empty_marker \<notin> set ascii_uppercase"
  by (simp add: empty_marker_def ascii_uppercase_def)

lemma filler_letter:
  "py_choice ascii_uppercase k \<in> set ascii_uppercase \<and> py_choice ascii_uppercase k \<noteq> empty_marker"
proof -
  have "ascii_uppercase \<noteq> []" by (simp add: ascii_uppercase_def)
  then have "py_choice ascii_uppercase k \<in> set ascii_uppercase" by (rule py_choice_in)
  then show ?thesis using marker_not_uppercase by auto
qed

lemma in_grid_shape: "map length g' = map length g \<Longrightarrow> in_grid g' p = in_grid g p"
proof -
  assume a: "map length g' = map length g"
  then have l: "length g' = length g" using map_eq_imp_length_eq by blast
  have "\<And>j. j < length g \<Longrightarrow> length (g' ! j) = length (g ! j)"
    using a l by (metis nth_map)
  then show ?thesis using l by (auto simp: in_grid_def)
qed

lemma fill_cells_result:
  assumes "list_all (in_grid g) ps"
  shows "\<exists>g'. fill_cells rnd ps g = Some g' \<and> map length g' = map length g \<and>
           (\<forall>r c. in_grid g (r, c) \<longrightarrow>
              g' ! nat r ! nat c =
                (if (r, c) \<in> set ps \<and> g ! nat r ! nat c = empty_marker
                 then py_choice ascii_uppercase (letter_draw rnd r c) else g ! nat r ! nat c))"
  using assms
proof (induction ps arbitrary: g)
  case Nil
  then show ?case by simp
next
  case (Cons p ps)
  obtain row col where p: "p = (row, col)" by (cases p) auto
  from Cons.prems have inp: "in_grid g (row, col)" and rest: "list_all (in_grid g) ps"
    by (simp_all add: p)
  have get: "grid_get g row col = Some (g ! nat row ! nat col)"
    using inp by (simp add: in_grid_def grid_get_def py_index_nonneg)
  show ?case
  proof (cases "g ! nat row ! nat col = empty_marker")
    case False
    from Cons.IH[OF rest] obtain g' where
      g': "fill_cells rnd ps g = Some g'" "map length g' = map length g"
      "\<forall>r c. in_grid g (r, c) \<longrightarrow> g' ! nat r ! nat c =
          (if (r, c) \<in> set ps \<and> g ! nat r ! nat c = empty_marker
           then py_choice ascii_uppercase (letter_draw rnd r c) else g ! nat r ! nat c)"
      by blast
    show ?thesis using g' get False by (auto simp: p)
  next
    case True
    let ?L = "py_choice ascii_uppercase (letter_draw rnd row col)"
    let ?g1 = "g[nat row := (g ! nat row)[nat col := ?L]]"
    have set1: "grid_set g row col ?L = Some ?g1"
      using inp by (simp add: in_grid_def grid_set_in_range)
    have sh1: "map length ?g1 = map length g"
      using grid_set_shape[OF set1] .
    have rest1: "list_all (in_grid ?g1) ps"
      using rest in_grid_shape[OF sh1] by (simp add: list_all_iff)
    from Cons.IH[OF rest1] obtain g' where
      g': "fill_cells rnd ps ?g1 = Some g'" "map length g' = map length ?g1"
      and cells: "\<forall>r c. in_grid ?g1 (r, c) \<longrightarrow> g' ! nat r ! nat c =
          (if (r, c) \<in> set ps \<and> ?g1 ! nat r ! nat c = empty_marker
           then py_choice ascii_uppercase (letter_draw rnd r c) else ?g1 ! nat r ! nat c)"
      by blast
    have step: "fill_cells rnd (p # ps) g = Some g'"
      using get True set1 g'(1) by (simp add: p)
    have upd: "\<And>r c. in_grid g (r, c) \<Longrightarrow>
        ?g1 ! nat r ! nat c = (if (r, c) = (row, col) then ?L else g ! nat r ! nat c)"
      using inp by (auto simp: in_grid_def nth_list_update)
    have "\<forall>r c. in_grid g (r, c) \<longrightarrow> g' ! nat r ! nat c =
          (if (r, c) \<in> set (p # ps) \<and> g ! nat r ! nat c = empty_marker
           then py_choice ascii_uppercase (letter_draw rnd r c) else g ! nat r ! nat c)"
    proof (intro allI impI)
      fix r c assume rc: "in_grid g (r, c)"
      then have "in_grid ?g1 (r, c)" using in_grid_shape[OF sh1] by simp
      then have a: "g' ! nat r ! nat c =
          (if (r, c) \<in> set ps \<and> ?g1 ! nat r ! nat c = empty_marker
           then py_choice ascii_uppercase (letter_draw rnd r c) else ?g1 ! nat r ! nat c)"
        using cells by blast
      show "g' ! nat r ! nat c =
          (if (r, c) \<in> set (p # ps) \<and> g ! nat r ! nat c = empty_marker
           then py_choice ascii_uppercase (letter_draw rnd r c) else g ! nat r ! nat c)"
        using a upd[OF rc] True filler_letter[of "letter_draw rnd row col"]
        by (auto simp: p)
    qed
    then show ?thesis using step g'(2) sh1 by simp
  qed
qed

lemma set_py_range: "set (py_range n) = {0..n - 1}"
  by (simp add: py_range_def)

lemma fill_empty_cells_frame:
  assumes rect: "list_all (\<lambda>line. length line = length (hd grid)) grid"
  shows "\<exists>grid'. fill_empty_cells rnd grid = Some grid' \<and> map length grid' = map length grid \<and>
      (\<forall>r<length grid. \<forall>c<length (grid ! r).
         (grid ! r ! c \<noteq> empty_marker \<longrightarrow> grid' ! r ! c = grid ! r ! c) \<and>
         (grid ! r ! c = empty_marker \<longrightarrow> grid' ! r ! c \<in> set ascii_uppercase) \<and>
         grid' ! r ! c \<noteq> empty_marker)"
proof (cases grid)
  case Nil
  then show ?thesis by (simp add: fill_empty_cells_def)
next
  case (Cons line0 others)
  define ps where "ps = concat (map (\<lambda>row. map (\<lambda>col. (row, col)) (py_range (int (length line0))))
                       (py_range (int (length grid))))"
  have len: "\<And>r. r < length grid \<Longrightarrow> length (grid ! r) = length line0"
    using rect Cons by (simp add: list_all_length)
  have mem: "\<And>r c. (r, c) \<in> set ps \<longleftrightarrow>
      0 \<le> r \<and> r < int (length grid) \<and> 0 \<le> c \<and> c < int (length line0)"
    by (auto simp: ps_def set_py_range image_iff)
  have all: "list_all (in_grid grid) ps"
    unfolding list_all_iff
  proof
    fix p assume "p \<in> set ps"
    then show "in_grid grid p" using mem[of "fst p" "snd p"] len[of "nat (fst p)"]
      by (auto simp: in_grid_def)
  qed
  from fill_cells_result[OF all, of rnd] obtain g' where
    g': "fill_cells rnd ps grid = Some g'" "map length g' = map length grid"
    and cells: "\<forall>r c. in_grid grid (r, c) \<longrightarrow> g' ! nat r ! nat c =
          (if (r, c) \<in> set ps \<and> grid ! nat r ! nat c = empty_marker
           then py_choice ascii_uppercase (letter_draw rnd r c) else grid ! nat r ! nat c)"
    by blast
  have fe: "fill_empty_cells rnd grid = Some g'"
    using g'(1) Cons by (simp add: fill_empty_cells_def ps_def)
  have "\<forall>r<length grid. \<forall>c<length (grid ! r).
         (grid ! r ! c \<noteq> empty_marker \<longrightarrow> g' ! r ! c = grid ! r ! c) \<and>
         (grid ! r ! c = empty_marker \<longrightarrow> g' ! r ! c \<in> set ascii_uppercase) \<and>
         g' ! r ! c \<noteq> empty_marker"
  proof (intro allI impI)
    fix r c assume r: "r < length grid" and c: "c < length (grid ! r)"
    have ig: "in_grid grid (int r, int c)" using r c by (simp add: in_grid_def)
    have inps: "(int r, int c) \<in> set ps" using r c len[OF r] by (simp add: mem)
    have "g' ! r ! c =
          (if grid ! r ! c = empty_marker
           then py_choice ascii_uppercase (letter_draw rnd (int r) (int c)) else grid ! r ! c)"
      using cells ig inps by fastforce
    then show "(grid ! r ! c \<noteq> empty_marker \<longrightarrow> g' ! r ! c = grid ! r ! c) \<and>
         (grid ! r ! c = empty_marker \<longrightarrow> g' ! r ! c \<in> set ascii_uppercase) \<and>
         g' ! r ! c \<noteq> empty_marker"
      using filler_letter[of "letter_draw rnd (int r) (int c)"] by auto
  qed
  then show ?thesis using fe g'(2) by blast
qed

subsection \<open>Placement consistency\<close>

lemma grid_get_in_grid: "in_grid g (r, c) \<Longrightarrow> grid_get g r c = Some (cell_at g (r, c))"
  by (simp add: in_grid_def grid_get_def py_index_nonneg cell_at_def)

lemma grid_get_nonneg_Some:
  "0 \<le> r \<Longrightarrow> 0 \<le> c \<Longrightarrow> grid_get g r c = Some ch \<Longrightarrow> in_grid g (r, c) \<and> cell_at g (r, c) = ch"
  by (auto simp: in_grid_def grid_get_def py_index_nonneg cell_at_def split: option.splits if_splits)

lemma grid_set_nonneg_Some:
  "0 \<le> r \<Longrightarrow> 0 \<le> c \<Longrightarrow> grid_set g r c v = Some g' \<Longrightarrow>
   in_grid g (r, c) \<and> g' = g[nat r := (g ! nat r)[nat c := v]]"
  by (auto simp: in_grid_def grid_set_def py_index_nonneg py_store_nonneg split: option.splits if_splits)

lemma cell_at_update:
  "in_grid g p \<Longrightarrow> in_grid g q \<Longrightarrow>
   cell_at (g[nat (fst p) := (g ! nat (fst p))[nat (snd p) := v]]) q = (if q = p then v else cell_at g q)"
  by (cases p; cases q) (auto simp: in_grid_def cell_at_def nth_list_update)

lemma those_map_Some:
  "(\<And>x. x \<in> set xs \<Longrightarrow> f x = Some (h x)) \<Longrightarrow> those (map f xs) = Some (map h xs)"
  by (induction xs) auto

lemma holds_read_word: "holds g w p \<Longrightarrow> read_word g p (length w) = Some w"
proof -
  assume h: "holds g w p"
  obtain row col d where p: "p = (row, col, d)" by (cases p) auto
  have "\<And>i. i \<in> set [0..<length w] \<Longrightarrow>
      (case cell_of d row col (int i) of (r, c) \<Rightarrow> grid_get g r c) = Some (w ! i)"
  proof -
    fix i assume "i \<in> set [0..<length w]"
    then have i: "i < length w" by simp
    obtain r c where rc: "cell_of d row col (int i) = (r, c)" by (cases "cell_of d row col (int i)") auto
    from h i rc have "in_grid g (r, c)" "cell_at g (r, c) = w ! i"
      by (auto simp: holds_def p)
    then show "(case cell_of d row col (int i) of (r, c) \<Rightarrow> grid_get g r c) = Some (w ! i)"
      using rc grid_get_in_grid by simp
  qed
  then have "those (map (\<lambda>i. case cell_of d row col (int i) of (r, c) \<Rightarrow> grid_get g r c) [0..<length w])
      = Some (map (\<lambda>i. w ! i) [0..<length w])"
    by (rule those_map_Some)
  then show ?thesis by (simp add: read_word_def p map_nth)
qed

lemma cell_of_inj: "cell_of d row col i = cell_of d row col j \<longleftrightarrow> i = j"
  by (cases d) auto

lemma cell_of_nonneg:
  "0 \<le> row \<Longrightarrow> 0 \<le> col \<Longrightarrow> 0 \<le> i \<Longrightarrow> 0 \<le> fst (cell_of d row col i) \<and> 0 \<le> snd (cell_of d row col i)"
  by (cases d) auto

lemma can_place_letters_True:
  assumes "can_place_letters g d row col i w = Some True" "0 \<le> row" "0 \<le> col" "0 \<le> i"
  shows "\<forall>k<length w. in_grid g (cell_of d row col (i + int k)) \<and>
           (cell_at g (cell_of d row col (i + int k)) = empty_marker \<or>
            cell_at g (cell_of d row col (i + int k)) = w ! k)"
  using assms
proof (induction w arbitrary: i)
  case Nil
  then show ?case by simp
next
  case (Cons letter rest)
  obtain r c where rc: "cell_of d row col i = (r, c)" by (cases "cell_of d row col i") auto
  have nn: "0 \<le> r" "0 \<le> c"
    using cell_of_nonneg[OF Cons.prems(2,3,4), of d] rc by simp_all
  from Cons.prems(1) rc obtain ch where
    ch: "grid_get g r c = Some ch" and ok: "ch = empty_marker \<or> ch = letter" and
    rest: "can_place_letters g d row col (i + 1) rest = Some True"
    by (auto split: option.splits if_splits)
  note first = grid_get_nonneg_Some[OF nn ch]
  have IH: "\<forall>k<length rest. in_grid g (cell_of d row col (i + 1 + int k)) \<and>
           (cell_at g (cell_of d row col (i + 1 + int k)) = empty_marker \<or>
            cell_at g (cell_of d row col (i + 1 + int k)) = rest ! k)"
    using Cons.IH[OF rest Cons.prems(2,3)] Cons.prems(4) by simp
  show ?case
  proof (intro allI impI)
    fix k assume k: "k < length (letter # rest)"
    show "in_grid g (cell_of d row col (i + int k)) \<and>
           (cell_at g (cell_of d row col (i + int k)) = empty_marker \<or>
            cell_at g (cell_of d row col (i + int k)) = (letter # rest) ! k)"
    proof (cases k)
      case 0
      then show ?thesis using first ok rc by simp
    next
      case (Suc k')
      then have k': "k' < length rest" using k by simp
      have e: "i + int k = i + 1 + int k'" using Suc by simp
      show ?thesis unfolding e using IH[rule_format, OF k'] Suc by simp
    qed
  qed
qed

lemma place_letters_cells:
  assumes "place_letters g d row col i w = Some g'" "0 \<le> row" "0 \<le> col" "0 \<le> i"
  shows "(\<forall>k<length w. in_grid g (cell_of d row col (i + int k)) \<and>
                        cell_at g' (cell_of d row col (i + int k)) = w ! k) \<and>
         (\<forall>q. in_grid g q \<longrightarrow> (\<forall>k<length w. cell_of d row col (i + int k) \<noteq> q) \<longrightarrow>
              cell_at g' q = cell_at g q)"
  using assms
proof (induction w arbitrary: i g)
  case Nil
  then show ?case by simp
next
  case (Cons letter rest)
  obtain r c where rc: "cell_of d row col i = (r, c)" by (cases "cell_of d row col i") auto
  have nn: "0 \<le> r" "0 \<le> c"
    using cell_of_nonneg[OF Cons.prems(2,3,4), of d] rc by simp_all
  from Cons.prems(1) rc obtain g1 where
    g1: "grid_set g r c letter = Some g1" and
    rest: "place_letters g1 d row col (i + 1) rest = Some g'"
    by (auto split: option.splits)
  from grid_set_nonneg_Some[OF nn g1] have
    in0: "in_grid g (r, c)" and g1def: "g1 = g[nat r := (g ! nat r)[nat c := letter]]" by simp_all
  have sh: "map length g1 = map length g" using grid_set_shape[OF g1] .
  have ig: "\<And>q. in_grid g1 q = in_grid g q" using in_grid_shape[OF sh] .
  have upd: "\<And>q. in_grid g q \<Longrightarrow> cell_at g1 q = (if q = (r, c) then letter else cell_at g q)"
    using cell_at_update[OF in0] unfolding g1def by simp
  have IH1: "\<forall>k<length rest. in_grid g1 (cell_of d row col (i + 1 + int k)) \<and>
                        cell_at g' (cell_of d row col (i + 1 + int k)) = rest ! k"
    and IH2: "\<forall>q. in_grid g1 q \<longrightarrow> (\<forall>k<length rest. cell_of d row col (i + 1 + int k) \<noteq> q) \<longrightarrow>
              cell_at g' q = cell_at g1 q"
    using Cons.IH[OF rest Cons.prems(2,3)] Cons.prems(4) by simp_all
  have notfirst: "\<And>k. cell_of d row col (i + 1 + int k) \<noteq> (r, c)"
  proof -
    fix k
    have "i + 1 + int k \<noteq> i" by simp
    then show "cell_of d row col (i + 1 + int k) \<noteq> (r, c)"
      using cell_of_inj[of d row col "i + 1 + int k" i] rc by simp
  qed
  have "cell_at g' (r, c) = cell_at g1 (r, c)"
    using IH2 ig in0 notfirst by blast
  then have first: "cell_at g' (r, c) = letter"
    using upd[OF in0] by simp
  have A: "\<forall>k<length (letter # rest). in_grid g (cell_of d row col (i + int k)) \<and>
                        cell_at g' (cell_of d row col (i + int k)) = (letter # rest) ! k"
  proof (intro allI impI)
    fix k assume k: "k < length (letter # rest)"
    show "in_grid g (cell_of d row col (i + int k)) \<and>
                        cell_at g' (cell_of d row col (i + int k)) = (letter # rest) ! k"
    proof (cases k)
      case 0
      then show ?thesis using first in0 rc by simp
    next
      case (Suc k')
      then have k': "k' < length rest" using k by simp
      have e: "i + int k = i + 1 + int k'" using Suc by simp
      show ?thesis unfolding e using IH1[rule_format, OF k'] ig Suc by simp
    qed
  qed
  have B: "\<forall>q. in_grid g q \<longrightarrow> (\<forall>k<length (letter # rest). cell_of d row col (i + int k) \<noteq> q) \<longrightarrow>
              cell_at g' q = cell_at g q"
  proof (intro allI impI)
    fix q assume q: "in_grid g q" and ne: "\<forall>k<length (letter # rest). cell_of d row col (i + int k) \<noteq> q"
    from ne have q0: "q \<noteq> (r, c)" using rc by force
    have "\<forall>k<length rest. cell_of d row col (i + 1 + int k) \<noteq> q"
    proof (intro allI impI)
      fix k assume "k < length rest"
      then have "Suc k < length (letter # rest)" by simp
      then have "cell_of d row col (i + int (Suc k)) \<noteq> q" using ne by blast
      moreover have "i + int (Suc k) = i + 1 + int k" by simp
      ultimately show "cell_of d row col (i + 1 + int k) \<noteq> q" by (simp add: add.assoc)
    qed
    then have "cell_at g' q = cell_at g1 q" using IH2 ig q by blast
    then show "cell_at g' q = cell_at g q" using upd[OF q] q0 by simp
  qed
  show ?case using A B by blast
qed

lemma can_place_word_True:
  "can_place_word g word d row col = Some True \<Longrightarrow> can_place_letters g d row col 0 word = Some True"
  by (cases d) (auto simp: can_place_word_def split: option.splits if_splits)

lemma place_word_on_grid_holds:
  assumes cp: "can_place_word g word d row col = Some True"
    and pl: "place_word_on_grid g word d row col = Some g'"
    and nn: "0 \<le> row" "0 \<le> col"
  shows "holds g' word (row, col, d)"
    and "\<And>w' p'. holds g w' p' \<Longrightarrow> empty_marker \<notin> set w' \<Longrightarrow> holds g' w' p'"
proof -
  have sh: "map length g' = map length g"
    using pl place_letters_shape by (simp add: place_word_on_grid_def)
  have ig: "\<And>q. in_grid g' q = in_grid g q" using in_grid_shape[OF sh] .
  have C: "\<forall>k<length word. in_grid g (cell_of d row col (int k)) \<and>
           (cell_at g (cell_of d row col (int k)) = empty_marker \<or>
            cell_at g (cell_of d row col (int k)) = word ! k)"
    using can_place_letters_True[OF can_place_word_True[OF cp] nn] by simp
  have P: "(\<forall>k<length word. in_grid g (cell_of d row col (int k)) \<and>
                        cell_at g' (cell_of d row col (int k)) = word ! k) \<and>
         (\<forall>q. in_grid g q \<longrightarrow> (\<forall>k<length word. cell_of d row col (int k) \<noteq> q) \<longrightarrow>
              cell_at g' q = cell_at g q)"
    using place_letters_cells[OF pl[unfolded place_word_on_grid_def] nn] by simp
  show "holds g' word (row, col, d)"
    using P ig by (simp add: holds_def)
  fix w' p'
  assume h: "holds g w' p'" and nm: "empty_marker \<notin> set w'"
  obtain row' col' d' where p': "p' = (row', col', d')" by (cases p') auto
  show "holds g' w' p'"
    unfolding holds_def p' prod.case
  proof (intro allI impI)
    fix j assume j: "j < length w'"
    let ?q = "cell_of d' row' col' (int j)"
    from h j have q: "in_grid g ?q" "cell_at g ?q = w' ! j"
      by (simp_all add: holds_def p')
    have ne: "cell_at g ?q \<noteq> empty_marker" using q(2) nm j by (metis nth_mem)
    have "cell_at g' ?q = cell_at g ?q"
    proof (cases "\<exists>k<length word. cell_of d row col (int k) = ?q")
      case True
      then obtain k where k: "k < length word" "cell_of d row col (int k) = ?q" by blast
      have "cell_at g ?q = word ! k" using C k ne by metis
      moreover have "cell_at g' ?q = word ! k" using P k by metis
      ultimately show ?thesis by simp
    next
      case False
      then show ?thesis using P q(1) by blast
    qed
    then show "in_grid g' ?q \<and> cell_at g' ?q = w' ! j" using q ig by simp
  qed
qed

lemma set_alist_update: "set (AList.update k v al) \<subseteq> insert (k, v) (set al)"
  by (induction al) auto

lemma try_positions_inv:
  assumes "try_positions word ps (g, pws) = Some (b, g', pws')"
    and "list_all nonneg_pos ps" and "placed_ok g pws" and "empty_marker \<notin> set word"
  shows "placed_ok g' pws'"
  using assms(1,2)
proof (induction ps)
  case Nil
  then show ?case using assms(3) by simp
next
  case (Cons p ps)
  obtain row col d where p: "p = (row, col, d)" by (cases p) auto
  from Cons.prems(2) have np: "nonneg_pos p" and rest: "list_all nonneg_pos ps"
    by simp_all
  from np have nn: "0 \<le> row" "0 \<le> col"
    by (simp_all add: p nonneg_pos_def)
  show ?case
  proof (cases "can_place_word g word d row col")
    case None
    then show ?thesis using Cons.prems(1) by (simp add: p)
  next
    case (Some ok)
    show ?thesis
    proof (cases ok)
      case False
      then show ?thesis using Cons.IH rest Cons.prems(1) Some by (simp add: p)
    next
      case True
      with Some Cons.prems(1) have pl: "place_word_on_grid g word d row col = Some g'"
        and pws': "pws' = AList.update word (row, col, d) pws"
        by (auto simp: p split: option.splits)
      have cp: "can_place_word g word d row col = Some True" using Some True by simp
      note H = place_word_on_grid_holds[OF cp pl nn]
      show ?thesis
        unfolding placed_ok_def
      proof (intro ballI)
        fix x assume "x \<in> set pws'"
        then have "x = (word, row, col, d) \<or> x \<in> set pws"
          using set_alist_update[of word "(row, col, d)" pws] pws' by auto
        then show "case x of (w, p) \<Rightarrow> empty_marker \<notin> set w \<and> holds g' w p"
        proof
          assume "x = (word, row, col, d)"
          then show ?thesis using H(1) assms(4) by simp
        next
          assume x: "x \<in> set pws"
          obtain w' p' where x': "x = (w', p')" by (cases x) auto
          from assms(3) x x' have "empty_marker \<notin> set w'" "holds g w' p'"
            by (auto simp: placed_ok_def)
          then show ?thesis using H(2) x' by simp
        qed
      qed
    qed
  qed
qed

lemma shuffle_from_set: "i < length xs \<Longrightarrow> set (shuffle_from draw i xs) = set xs"
proof (induction i arbitrary: xs)
  case 0
  then show ?case by simp
next
  case (Suc i)
  let ?j = "draw (Suc i) mod (Suc i + 1)"
  have "?j < Suc i + 1" by simp
  then have j: "?j < length xs" using Suc.prems by linarith
  let ?ys = "xs[Suc i := xs ! ?j, ?j := xs ! Suc i]"
  have "set ?ys = set xs" using set_swap[OF Suc.prems j] .
  moreover have "i < length ?ys" using Suc.prems by simp
  ultimately show ?case using Suc.IH[of ?ys] by (simp add: Let_def)
qed

lemma py_shuffle_set: "set (py_shuffle draw xs) = set xs"
proof (cases xs)
  case Nil
  then show ?thesis by (simp add: py_shuffle_def)
next
  case (Cons a list)
  then have "length xs - 1 < length xs" by simp
  then show ?thesis unfolding py_shuffle_def by (rule shuffle_from_set)
qed

lemma those_Some_set: "those xs = Some ys \<Longrightarrow> set ys = {y. Some y \<in> set xs}"
  by (induction xs arbitrary: ys) (auto split: option.splits)

lemma overlap_candidate_nonneg:
  "overlap_candidate g dirs word p i letter j placed_letter = Some l \<Longrightarrow> list_all nonneg_pos l"
  by (cases p)
    (auto simp: overlap_candidate_def Let_def nonneg_pos_def split: if_splits direction.splits option.splits)

lemma find_overlaps_nonneg:
  assumes "find_overlaps pws word g dirs = Some ps"
  shows "list_all nonneg_pos ps"
proof -
  let ?cands = "concat (map (\<lambda>(placed_word, p).
        concat (map (\<lambda>(i, letter).
          map (\<lambda>(j, placed_letter). overlap_candidate g dirs word p i letter j placed_letter)
            (py_enumerate placed_word))
          (py_enumerate word))) pws)"
  from assms obtain ls where ls: "those ?cands = Some ls" and ps: "ps = concat ls"
    by (auto simp: find_overlaps_def)
  have "\<And>l. l \<in> set ls \<Longrightarrow> list_all nonneg_pos l"
  proof -
    fix l assume "l \<in> set ls"
    then have "Some l \<in> set ?cands" using those_Some_set[OF ls] by simp
    then obtain p i letter j placed_letter where
      "overlap_candidate g dirs word p i letter j placed_letter = Some l"
      by auto
    then show "list_all nonneg_pos l" by (rule overlap_candidate_nonneg)
  qed
  then show ?thesis unfolding ps by (auto simp: list_all_iff)
qed

lemma scan_positions_nonneg: "list_all nonneg_pos (scan_positions n d)"
  by (auto simp: scan_positions_def list_all_iff nonneg_pos_def py_range_def)

lemma first_position_nonneg:
  "0 \<le> n \<Longrightarrow> int (length word) \<le> n \<Longrightarrow> nonneg_pos (first_position n word d)"
  by (cases d) (auto simp: first_position_def nonneg_pos_def)

lemma place_word_inv:
  assumes "place_word rnd dirs n k word (g, pws) = Some (g', pws')"
    and "placed_ok g pws" and "empty_marker \<notin> set word" and "0 \<le> n" and "int (length word) \<le> n"
  shows "placed_ok g' pws'"
proof -
  from assms(1) obtain d where d: "map_of dirs word = Some d"
    by (auto simp: place_word_def split: option.splits)
  define attempt where "attempt = (if pws = [] then try_positions word [first_position n word d] (g, pws)
                 else (case find_overlaps pws word g dirs of
                         None \<Rightarrow> None
                       | Some possible_positions \<Rightarrow>
                           try_positions word
                             (py_shuffle (shuffle_draw rnd k) possible_positions) (g, pws)))"
  from assms(1) d obtain b g1 pws1 where a: "attempt = Some (b, g1, pws1)"
    by (cases attempt) (auto simp: place_word_def attempt_def split: option.splits)
  have ok1: "placed_ok g1 pws1"
  proof (cases "pws = []")
    case True
    then have "try_positions word [first_position n word d] (g, pws) = Some (b, g1, pws1)"
      using a by (simp add: attempt_def)
    moreover have "list_all nonneg_pos [first_position n word d]"
      using first_position_nonneg[OF assms(4,5)] by simp
    ultimately show ?thesis
      using try_positions_inv assms(2,3) by blast
  next
    case False
    then obtain ps where fo: "find_overlaps pws word g dirs = Some ps"
      and tp: "try_positions word (py_shuffle (shuffle_draw rnd k) ps) (g, pws) = Some (b, g1, pws1)"
      using a by (auto simp: attempt_def split: option.splits)
    have "list_all nonneg_pos (py_shuffle (shuffle_draw rnd k) ps)"
      using find_overlaps_nonneg[OF fo] by (simp add: list_all_iff py_shuffle_set)
    then show ?thesis using try_positions_inv[OF tp _ assms(2,3)] by simp
  qed
  show ?thesis
  proof (cases b)
    case True
    then have "(g', pws') = (g1, pws1)"
      using assms(1) d a by (auto simp: place_word_def attempt_def split: if_splits)
    then show ?thesis using ok1 by simp
  next
    case False
    then obtain b2 where "try_positions word (scan_positions n d) (g1, pws1) = Some (b2, g', pws')"
      using assms(1) d a by (auto simp: place_word_def attempt_def split: if_splits option.splits)
    then show ?thesis using try_positions_inv[OF _ scan_positions_nonneg ok1 assms(3)] by simp
  qed
qed

lemma place_words_inv:
  assumes "place_words rnd dirs n k ws (g, pws) = Some (g', pws')"
    and "placed_ok g pws" and "\<forall>w\<in>set ws. empty_marker \<notin> set w \<and> int (length w) \<le> n" and "0 \<le> n"
  shows "placed_ok g' pws'"
  using assms(1,2,3)
proof (induction ws arbitrary: g pws k)
  case Nil
  then show ?case by simp
next
  case (Cons w ws)
  from Cons.prems(1) obtain g1 pws1 where
    one: "place_word rnd dirs n k w (g, pws) = Some (g1, pws1)" and
    rest: "place_words rnd dirs n (Suc k) ws (g1, pws1) = Some (g', pws')"
    by (auto split: option.splits)
  have "placed_ok g1 pws1"
    using place_word_inv[OF one Cons.prems(2) _ assms(4)] Cons.prems(3) by simp
  then show ?case using Cons.IH[OF rest] Cons.prems(3) by simp
qed

lemma ascii_upper_char_marker: "ascii_upper_char c = empty_marker \<longleftrightarrow> c = empty_marker"
proof (cases "97 \<le> (of_char c :: nat) \<and> (of_char c :: nat) \<le> 122")
  case False
  then show ?thesis by (auto simp: ascii_upper_char_def)
next
  case True
  have "char_of ((of_char c :: nat) - 32) \<noteq> CHR ''.''"
  proof
    assume "char_of ((of_char c :: nat) - 32) = CHR ''.''"
    then have "(of_char (char_of ((of_char c :: nat) - 32)) :: nat) = of_char CHR ''.''" by simp
    then show False using True by (simp add: mod_if split: if_splits)
  qed
  moreover have "c \<noteq> CHR ''.''" using True by auto
  ultimately show ?thesis using True by (simp add: ascii_upper_char_def empty_marker_def)
qed

lemma ascii_upper_marker: "empty_marker \<in> set (ascii_upper w) \<longleftrightarrow> empty_marker \<in> set w"
proof
  assume "empty_marker \<in> set (ascii_upper w)"
  then obtain c where "c \<in> set w" "ascii_upper_char c = empty_marker"
    by (auto simp: ascii_upper_def)
  then show "empty_marker \<in> set w" using ascii_upper_char_marker by simp
next
  assume "empty_marker \<in> set w"
  moreover have "ascii_upper_char empty_marker = empty_marker"
    by (simp add: ascii_upper_char_marker)
  ultimately show "empty_marker \<in> set (ascii_upper w)"
    unfolding ascii_upper_def by (metis image_eqI list.set_map)
qed

lemma square_rect:
  assumes "map length g = replicate m m"
  shows "list_all (\<lambda>line. length line = length (hd g)) g"
proof -
  have "\<forall>line\<in>set g. length line = m"
    using assms by (metis (mono_tags, lifting) in_set_replicate list.set_map imageI)
  then show ?thesis by (cases g) (auto simp: list_all_iff)
qed

lemma fill_empty_cells_keeps:
  assumes rect: "list_all (\<lambda>line. length line = length (hd g)) g"
    and fl: "fill_empty_cells rnd g = Some g'"
    and q: "in_grid g q" and ne: "cell_at g q \<noteq> empty_marker"
  shows "in_grid g' q \<and> cell_at g' q = cell_at g q"
proof -
  from fill_empty_cells_frame[OF rect, of rnd] fl have
    sh: "map length g' = map length g" and
    cells: "\<forall>r<length g. \<forall>c<length (g ! r). (g ! r ! c \<noteq> empty_marker \<longrightarrow> g' ! r ! c = g ! r ! c)"
    by auto
  have "nat (fst q) < length g" "nat (snd q) < length (g ! nat (fst q))"
    using q by (auto simp: in_grid_def)
  then have "g' ! nat (fst q) ! nat (snd q) = g ! nat (fst q) ! nat (snd q)"
    using cells ne by (simp add: cell_at_def)
  then show ?thesis using in_grid_shape[OF sh] q by (simp add: cell_at_def)
qed

lemma fill_empty_cells_placed_ok:
  assumes rect: "list_all (\<lambda>line. length line = length (hd g)) g"
    and fl: "fill_empty_cells rnd g = Some g'"
    and ok: "placed_ok g pws"
  shows "placed_ok g' pws"
  unfolding placed_ok_def
proof (intro ballI)
  fix x assume x: "x \<in> set pws"
  obtain w row col d where x': "x = (w, row, col, d)" by (cases x) auto
  from ok x x' have nm: "empty_marker \<notin> set w" and h: "holds g w (row, col, d)"
    by (auto simp: placed_ok_def)
  have "holds g' w (row, col, d)"
    unfolding holds_def prod.case
  proof (intro allI impI)
    fix i assume i: "i < length w"
    let ?q = "cell_of d row col (int i)"
    from h i have q: "in_grid g ?q" "cell_at g ?q = w ! i" by (simp_all add: holds_def)
    have "cell_at g ?q \<noteq> empty_marker" using q(2) nm i by (metis nth_mem)
    then show "in_grid g' ?q \<and> cell_at g' ?q = w ! i"
      using fill_empty_cells_keeps[OF rect fl q(1)] q(2) by simp
  qed
  then show "case x of (w, p) \<Rightarrow> empty_marker \<notin> set w \<and> holds g' w p"
    using nm x' by simp
qed

lemma generated_placed_ok:
  assumes gen: "generate_word_search rnd e = Some (grid, e')"
    and nm: "\<forall>w\<in>set (sampled rnd). empty_marker \<notin> set (str_upper rnd w)"
  shows "placed_ok grid (placed_words e')"
proof -
  define ws where "ws = sort_key (\<lambda>w. - int (length w)) (map (str_upper rnd) (sampled rnd))"
  from gen obtain n g1 pws where
    n: "determine_initial_grid_size ws = Some n" and
    pl: "place_words rnd (choose_directions rnd ws) n 0 ws (create_empty_grid n, []) = Some (g1, pws)" and
    fl: "fill_empty_cells rnd g1 = Some grid" and
    e': "placed_words e' = pws"
    by (auto simp: generate_word_search_def Let_def ws_def split: option.splits prod.splits)
  have wsne: "ws \<noteq> []" and nval: "n = py_round (of_nat (Max (set (map length ws))) * (3 / 2))"
    using n by (auto simp: determine_initial_grid_size_def py_max_eq split: if_splits)
  have n0: "0 \<le> n"
    unfolding nval using grid_size_ge[of "Max (set (map length ws))"] by simp
  have lens: "\<forall>w\<in>set ws. int (length w) \<le> n"
  proof
    fix w assume "w \<in> set ws"
    then have "length w \<le> Max (set (map length ws))" by simp
    then show "int (length w) \<le> n"
      unfolding nval using grid_size_ge[of "Max (set (map length ws))"] by linarith
  qed
  have marks: "\<forall>w\<in>set ws. empty_marker \<notin> set w"
    using nm by (auto simp: ws_def)
  have ok0: "placed_ok (create_empty_grid n) []" by (simp add: placed_ok_def)
  have ok1: "placed_ok g1 pws"
    using place_words_inv[OF pl ok0 _ n0] lens marks by blast
  have "map length g1 = replicate (nat n) (nat n)"
    using place_words_shape[OF pl] create_empty_grid_shape by simp
  then have rect: "list_all (\<lambda>line. length line = length (hd g1)) g1" by (rule square_rect)
  show ?thesis using fill_empty_cells_placed_ok[OF rect fl ok1] e' by simp
qed

text \<open>
  Claim C2, as the code has it. When no sampled word, once uppercased, holds the character
  of the empty marker, then after generation (placement of all words, then filling) every word of the
  placement index is read back from the grid: the cells from its anchor along its
  direction, as many as it has letters, hold exactly its text.
\<close>

theorem placement_consistent:
  assumes gen: "generate_word_search rnd e = Some (grid, e')"
    and nm: "\<forall>w\<in>set (sampled rnd). empty_marker \<notin> set (str_upper rnd w)"
  shows "list_all (\<lambda>(w, p). read_word grid p (length w) = Some w) (placed_words e')"
  using generated_placed_ok[OF gen nm] holds_read_word
  by (auto simp: placed_ok_def list_all_iff)

theorem placement_consistent_witness:
  "generate_word_search demo_source init =
     Some (demo_grid, demo_env\<lparr>game_board := [], state := state_reset []\<rparr>) \<and>
   sampled demo_source = [''cat''] \<and> str_upper demo_source ''cat'' = ''CAT'' \<and>
   empty_marker \<notin> set ''CAT'' \<and>
   list_all (\<lambda>(w, p). read_word demo_grid p (length w) = Some w)
     (placed_words (demo_env\<lparr>game_board := [], state := state_reset []\<rparr>))"
proof -
  have s: "sampled demo_source = [''cat'']" by (simp add: demo_source_def)
  have u: "str_upper demo_source ''cat'' = ''CAT''" by code_simp
  have m: "empty_marker \<notin> set ''CAT''" by (simp add: empty_marker_def)
  have h: "\<forall>w\<in>set (sampled demo_source). empty_marker \<notin> set (str_upper demo_source w)"
    using s u m by simp
  show ?thesis using s u m generate_demo placement_consistent[OF generate_demo h] by simp
qed

lemma placement_consistent_ascii:
  assumes gen: "generate_word_search rnd e = Some (grid, e')"
    and up: "str_upper rnd = ascii_upper"
    and nm: "\<forall>w\<in>set (sampled rnd). empty_marker \<notin> set w"
  shows "list_all (\<lambda>(w, p). read_word grid p (length w) = Some w) (placed_words e')"
proof -
  have "\<forall>w\<in>set (sampled rnd). empty_marker \<notin> set (str_upper rnd w)"
    using nm by (simp add: up ascii_upper_marker)
  from generated_placed_ok[OF gen this] show ?thesis
    using holds_read_word by (auto simp: placed_ok_def list_all_iff)
qed

theorem dotted_word_not_read_back:
  "map_option fst (generate_word_search dotted_source init) = Some dotted_grid \<and>
   map_option (placed_words \<circ> snd) (generate_word_search dotted_source init) =
     Some [(''A.B'', 2, 0, across)] \<and>
   read_word dotted_grid (2, 0, across) (length ''A.B'') = Some ''AAB''"
  by code_simp

subsection \<open>The filler after placement\<close>

lemma grid_size_bounds:
  assumes "determine_initial_grid_size ws = Some n"
  shows "0 \<le> n \<and> (\<forall>w\<in>set ws. int (length w) \<le> n)"
proof -
  have nval: "n = py_round (of_nat (Max (set (map length ws))) * (3 / 2))"
    using assms by (auto simp: determine_initial_grid_size_def py_max_eq split: if_splits)
  have n0: "0 \<le> n"
    unfolding nval using grid_size_ge[of "Max (set (map length ws))"] by simp
  have "\<forall>w\<in>set ws. int (length w) \<le> n"
  proof
    fix w assume "w \<in> set ws"
    then have "length w \<le> Max (set (map length ws))" by simp
    then show "int (length w) \<le> n"
      unfolding nval using grid_size_ge[of "Max (set (map length ws))"] by linarith
  qed
  then show ?thesis using n0 by simp
qed

text \<open>
  Claim C8, as the code has it. Take the grid that the placement loop leaves for a word
  list none of whose words holds the character of the empty marker. The filler returns a
  grid of the same shape. Every letter of every word of the placement index lies at its
  cell before the filler runs and still lies there afterwards. Every cell that did not
  hold the marker keeps its character, every cell that held it holds one of the 26
  letters of \<^verbatim>\<open>string.ascii_uppercase\<close>, and no cell of the final grid holds the marker.
\<close>

theorem fill_frame:
  assumes sz: "determine_initial_grid_size ws = Some n"
    and pl: "place_words rnd dirs n k ws (create_empty_grid n, []) = Some (g1, pws)"
    and nm: "\<forall>w\<in>set ws. empty_marker \<notin> set w"
  shows "\<exists>grid. fill_empty_cells rnd g1 = Some grid \<and> map length grid = map length g1 \<and>
      (\<forall>(w, row, col, d)\<in>set pws. \<forall>i<length w.
         in_grid g1 (cell_of d row col (int i)) \<and>
         cell_at g1 (cell_of d row col (int i)) = w ! i \<and>
         cell_at grid (cell_of d row col (int i)) = w ! i) \<and>
      (\<forall>r<length g1. \<forall>c<length (g1 ! r).
         (g1 ! r ! c \<noteq> empty_marker \<longrightarrow> grid ! r ! c = g1 ! r ! c) \<and>
         (g1 ! r ! c = empty_marker \<longrightarrow> grid ! r ! c \<in> set ascii_uppercase) \<and>
         grid ! r ! c \<noteq> empty_marker)"
proof -
  note b = grid_size_bounds[OF sz]
  have ok0: "placed_ok (create_empty_grid n) []" by (simp add: placed_ok_def)
  have ok1: "placed_ok g1 pws"
    using place_words_inv[OF pl ok0 _ conjunct1[OF b]] b nm by blast
  have "map length g1 = replicate (nat n) (nat n)"
    using place_words_shape[OF pl] create_empty_grid_shape by simp
  then have rect: "list_all (\<lambda>line. length line = length (hd g1)) g1" by (rule square_rect)
  from fill_empty_cells_frame[OF rect, of rnd] obtain grid where
    fl: "fill_empty_cells rnd g1 = Some grid" and sh: "map length grid = map length g1" and
    fr: "\<forall>r<length g1. \<forall>c<length (g1 ! r).
         (g1 ! r ! c \<noteq> empty_marker \<longrightarrow> grid ! r ! c = g1 ! r ! c) \<and>
         (g1 ! r ! c = empty_marker \<longrightarrow> grid ! r ! c \<in> set ascii_uppercase) \<and>
         grid ! r ! c \<noteq> empty_marker"
    by blast
  have ok2: "placed_ok grid pws" using fill_empty_cells_placed_ok[OF rect fl ok1] .
  have "\<forall>(w, row, col, d)\<in>set pws. \<forall>i<length w.
         in_grid g1 (cell_of d row col (int i)) \<and>
         cell_at g1 (cell_of d row col (int i)) = w ! i \<and>
         cell_at grid (cell_of d row col (int i)) = w ! i"
    using ok1 ok2 by (fastforce simp: placed_ok_def holds_def)
  then show ?thesis using fl sh fr by blast
qed

lemma place_demo:
  "determine_initial_grid_size [''CAT''] = Some 4 \<and>
   place_words demo_source [(''CAT'', across)] 4 0 [''CAT''] (create_empty_grid 4, []) =
     Some (demo_placed, [(''CAT'', 2, 0, across)]) \<and>
   fill_empty_cells demo_source demo_placed = Some demo_grid"
  by code_simp

theorem fill_frame_witness:
  "determine_initial_grid_size [''CAT''] = Some 4 \<and>
   place_words demo_source [(''CAT'', across)] 4 0 [''CAT''] (create_empty_grid 4, []) =
     Some (demo_placed, [(''CAT'', 2, 0, across)]) \<and>
   empty_marker \<notin> set ''CAT'' \<and>
   fill_empty_cells demo_source demo_placed = Some demo_grid \<and>
   (\<exists>grid. fill_empty_cells demo_source demo_placed = Some grid \<and>
      map length grid = map length demo_placed \<and>
      (\<forall>(w, row, col, d)\<in>set [(''CAT'', 2, 0, across)]. \<forall>i<length w.
         in_grid demo_placed (cell_of d row col (int i)) \<and>
         cell_at demo_placed (cell_of d row col (int i)) = w ! i \<and>
         cell_at grid (cell_of d row col (int i)) = w ! i) \<and>
      (\<forall>r<length demo_placed. \<forall>c<length (demo_placed ! r).
         (demo_placed ! r ! c \<noteq> empty_marker \<longrightarrow> grid ! r ! c = demo_placed ! r ! c) \<and>
         (demo_placed ! r ! c = empty_marker \<longrightarrow> grid ! r ! c \<in> set ascii_uppercase) \<and>
         grid ! r ! c \<noteq> empty_marker))"
proof -
  have sz: "determine_initial_grid_size [''CAT''] = Some 4" using place_demo by simp
  have pl: "place_words demo_source [(''CAT'', across)] 4 0 [''CAT''] (create_empty_grid 4, []) =
     Some (demo_placed, [(''CAT'', 2, 0, across)])" using place_demo by simp
  have fl: "fill_empty_cells demo_source demo_placed = Some demo_grid" using place_demo by simp
  have m: "empty_marker \<notin> set ''CAT''" by (simp add: empty_marker_def)
  have nm: "\<forall>w\<in>set [''CAT'']. empty_marker \<notin> set w" using m by simp
  show ?thesis using sz pl m fl fill_frame[OF sz pl nm] by blast
qed

theorem filler_changes_dotted_letter:
  "determine_initial_grid_size [''A.B''] = Some 4 \<and>
   place_words dotted_source [(''A.B'', across)] 4 0 [''A.B''] (create_empty_grid 4, []) =
     Some (dotted_placed, [(''A.B'', 2, 0, across)]) \<and>
   cell_at dotted_placed (cell_of across 2 0 1) = ''A.B'' ! 1 \<and>
   fill_empty_cells dotted_source dotted_placed = Some dotted_grid \<and>
   cell_at dotted_grid (cell_of across 2 0 1) = CHR ''A'' \<and>
   cell_at dotted_grid (cell_of across 2 0 1) \<noteq> cell_at dotted_placed (cell_of across 2 0 1)"
  by code_simp

subsection \<open>Reset\<close>

text \<open>
  Claim C7 fails on the code: \<^verbatim>\<open>num_incorrect_tries\<close> is set in \<^verbatim>\<open>__init__\<close> only. After one
  incorrect guess and a second reset the sets and the log are empty again, but the counter
  still reads 19, not the budget of 20.
\<close>

theorem reset_keeps_spent_tries:
  "map_option (\<lambda>e. (num_incorrect_tries e, correct_words e, highlighted_positions e,
                    incorrect_attempts e))
     (Option.bind (Option.bind (reset demo_source init) (\<lambda>e. step e [(0, 0, 0, 0)]))
        (reset demo_source)) = Some (19, {}, {}, [])"
  by code_simp

subsection \<open>The verifier\<close>

lemma those_map_None: "those (map f xs) = None \<longleftrightarrow> (\<exists>x\<in>set xs. f x = None)"
  by (induction xs) (auto split: option.splits)

lemma those_map_length: "those (map f xs) = Some ys \<Longrightarrow> length ys = length xs"
  by (induction xs arbitrary: ys) (auto split: option.splits)

lemma grid_get_None_shape:
  "map length g1 = map length g2 \<Longrightarrow> grid_get g1 r c = None \<longleftrightarrow> grid_get g2 r c = None"
proof -
  assume a: "map length g1 = map length g2"
  then have l: "length g1 = length g2" using map_eq_imp_length_eq by blast
  have "\<And>j. j < length g1 \<Longrightarrow> length (g1 ! j) = length (g2 ! j)"
    using a l by (metis nth_map)
  then show ?thesis using l
    by (auto simp: grid_get_def py_index_def Let_def split: option.splits if_splits)
qed

lemma extract_word_length:
  "extract_word g sr sc er ec = Some w \<Longrightarrow>
   int (length w) = (if sr = er then \<bar>ec - sc\<bar> + 1 else if sc = ec then \<bar>er - sr\<bar> + 1 else 0)"
  by (auto simp: extract_word_def length_upto dest!: those_map_length split: if_splits)

lemma extract_word_None_shape:
  "map length g1 = map length g2 \<Longrightarrow>
   extract_word g1 sr sc er ec = None \<longleftrightarrow> extract_word g2 sr sc er ec = None"
  using grid_get_None_shape[of g1 g2]
  by (auto simp: extract_word_def those_map_None)

lemma matches_position_length:
  "length w1 = length w2 \<Longrightarrow>
   matches_position w1 row col d sr sc er ec = matches_position w2 row col d sr sc er ec"
  by (simp add: matches_position_def)

lemma check_word_shape:
  assumes "map length g1 = map length g2"
  shows "check_word e g1 sr sc er ec = check_word e g2 sr sc er ec"
proof (cases "extract_word g1 sr sc er ec")
  case None
  then show ?thesis using extract_word_None_shape[OF assms, of sr sc er ec]
    by (simp add: check_word_def)
next
  case (Some w1)
  then obtain w2 where w2: "extract_word g2 sr sc er ec = Some w2"
    using extract_word_None_shape[OF assms, of sr sc er ec] by auto
  have "int (length w1) = int (length w2)"
    using extract_word_length[OF Some] extract_word_length[OF w2] by simp
  then have "\<And>row col d. matches_position w1 row col d sr sc er ec = matches_position w2 row col d sr sc er ec"
    by (intro matches_position_length) simp
  then show ?thesis using Some w2 by (simp add: check_word_def)
qed

lemma check_word_frame:
  "check_word e g sr sc er ec = Some (ok, e') \<Longrightarrow>
   placed_words e' = placed_words e \<and> state e' = state e \<and>
   num_incorrect_tries e' = num_incorrect_tries e \<and> game_board e' = game_board e"
  by (auto simp: check_word_def highlight_word_def split: option.splits if_splits)

lemma check_word_again:
  assumes "check_word e g sr sc er ec = Some (True, e')"
  shows "check_word e' g sr sc er ec = Some (True, e')"
proof -
  from assms obtain w pw p where
    w: "extract_word g sr sc er ec = Some w" and
    f: "find (\<lambda>(placed_word, row, col, direction).
                matches_position w row col direction sr sc er ec) (placed_words e) = Some (pw, p)" and
    e': "e' = highlight_word (e\<lparr>correct_words := insert pw (correct_words e)\<rparr>) sr sc er ec"
    by (auto simp: check_word_def split: option.splits)
  have pw': "placed_words e' = placed_words e"
    using e' by (simp add: highlight_word_def)
  have "highlight_word (e'\<lparr>correct_words := insert pw (correct_words e')\<rparr>) sr sc er ec = e'"
    unfolding e' by (simp add: highlight_word_def Un_assoc)
  then show ?thesis using w f pw' by (simp add: check_word_def)
qed

lemma check_word_attempts_True:
  "check_word e g sr sc er ec = Some (True, e') \<Longrightarrow> incorrect_attempts e' = incorrect_attempts e"
  by (auto simp: check_word_def highlight_word_def split: option.splits if_splits)

text \<open>
  Claim C10. The duplicate test of \<^verbatim>\<open>step\<close> reads the log of incorrect attempts only. A guess
  that was accepted is accepted again when it is repeated: it is not in the log, the
  verifier returns true, and the environment after the second guess is the one after the
  first, so \<^verbatim>\<open>correct_words\<close>, \<^verbatim>\<open>highlighted_positions\<close> and the counter of tries are unchanged.
\<close>

theorem repeated_correct_guess_accepted:
  assumes "step_match e g = Some (Correct, e')"
  shows "step_match e' g = Some (Correct, e') \<and> g \<notin> set (incorrect_attempts e')"
proof -
  obtain sr sc er ec where g: "g = (sr, sc, er, ec)" by (cases g) auto
  from assms have ib: "in_bounds (board (state e)) g = Some True"
    and na: "g \<notin> set (incorrect_attempts e)"
    and cw: "check_word e (board (state e)) sr sc er ec = Some (True, e')"
    by (auto simp: step_match_def g Let_def split: option.splits bool.splits if_splits)
  have st: "state e' = state e" and at: "incorrect_attempts e' = incorrect_attempts e"
    using check_word_frame[OF cw] check_word_attempts_True[OF cw] by simp_all
  show ?thesis
    using ib na check_word_again[OF cw] st at by (simp add: step_match_def g)
qed

theorem repeated_correct_guess_accepted_witness:
  "step_match demo_env (2, 0, 2, 2) = Some (Correct, demo_found) \<and>
   step_match demo_found (2, 0, 2, 2) = Some (Correct, demo_found) \<and>
   (2, 0, 2, 2) \<notin> set (incorrect_attempts demo_found)"
proof -
  have h: "step_match demo_env (2, 0, 2, 2) = Some (Correct, demo_found)"
    by code_simp
  show ?thesis using h repeated_correct_guess_accepted[OF h] by simp
qed

text \<open>
  Claim C9. The verifier reads the grid only to build the word whose length it compares
  with the span. Two grids with rows of the same lengths give the same result for every
  guess: the same exception or the same boolean, and the same environment afterwards
  (\<^verbatim>\<open>correct_words\<close>, \<^verbatim>\<open>highlighted_positions\<close> and \<^verbatim>\<open>incorrect_attempts\<close> included).
\<close>

theorem verifier_ignores_letters:
  assumes "map length g1 = map length g2"
  shows "check_word e g1 sr sc er ec = check_word e g2 sr sc er ec"
  using assms by (rule check_word_shape)

theorem verifier_ignores_letters_witness:
  "map length demo_grid = map length other_grid \<and> demo_grid \<noteq> other_grid \<and>
   check_word demo_env demo_grid 2 0 2 2 = check_word demo_env other_grid 2 0 2 2"
proof -
  have h: "map length demo_grid = map length other_grid"
    by (simp add: demo_grid_def other_grid_def)
  show ?thesis
    using h verifier_ignores_letters[OF h, of demo_env 2 0 2 2]
    by (simp add: demo_grid_def other_grid_def)
qed

lemma in_bounds_total: "in_bounds b g \<noteq> None"
  by (cases g) (auto simp: in_bounds_def py_index_def Let_def split: option.splits)

lemma in_bounds_TrueD:
  "in_bounds b (sr, sc, er, ec) = Some True \<Longrightarrow>
   0 \<le> sr \<and> sr < int (length b) \<and> 0 \<le> er \<and> er < int (length b) \<and>
   0 \<le> sc \<and> sc < int (length (hd b)) \<and> 0 \<le> ec \<and> ec < int (length (hd b))"
  by (cases b) (auto simp: in_bounds_def py_index_def Let_def split: option.splits if_splits)

lemma grid_get_in_range:
  "0 \<le> r \<Longrightarrow> r < int (length g) \<Longrightarrow> 0 \<le> c \<Longrightarrow> c < int (length (g ! nat r)) \<Longrightarrow>
   grid_get g r c = Some (g ! nat r ! nat c)"
  by (simp add: grid_get_def py_index_nonneg)

lemma extract_word_total:
  assumes ib: "in_bounds b (sr, sc, er, ec) = Some True"
    and rect: "list_all (\<lambda>line. length line = length (hd b)) b"
  shows "extract_word b sr sc er ec \<noteq> None"
proof -
  note B = in_bounds_TrueD[OF ib]
  have len: "\<And>r. 0 \<le> r \<Longrightarrow> r < int (length b) \<Longrightarrow> length (b ! nat r) = length (hd b)"
    using rect by (simp add: list_all_length)
  have cell: "\<And>r c. 0 \<le> r \<Longrightarrow> r < int (length b) \<Longrightarrow> 0 \<le> c \<Longrightarrow> c < int (length (hd b))
     \<Longrightarrow> grid_get b r c \<noteq> None"
    using len by (simp add: grid_get_in_range)
  show ?thesis
  proof (cases "sr = er")
    case True
    have "\<forall>col\<in>set [min sc ec..max sc ec]. grid_get b sr col \<noteq> None"
    proof
      fix col assume "col \<in> set [min sc ec..max sc ec]"
      then have "0 \<le> col" "col < int (length (hd b))" using B by auto
      then show "grid_get b sr col \<noteq> None" using cell B by blast
    qed
    then have "those (map (\<lambda>col. grid_get b sr col) [min sc ec..max sc ec]) \<noteq> None"
      by (simp only: those_map_None) blast
    then show ?thesis using True by (simp add: extract_word_def)
  next
    case False
    have "\<forall>row\<in>set [min sr er..max sr er]. grid_get b row sc \<noteq> None"
    proof
      fix row assume "row \<in> set [min sr er..max sr er]"
      then have "0 \<le> row" "row < int (length b)" using B by auto
      then show "grid_get b row sc \<noteq> None" using cell B by blast
    qed
    then have "those (map (\<lambda>row. grid_get b row sc) [min sr er..max sr er]) \<noteq> None"
      by (simp only: those_map_None) blast
    then show ?thesis using False by (auto simp: extract_word_def)
  qed
qed

lemma check_word_total:
  "extract_word g sr sc er ec \<noteq> None \<Longrightarrow> check_word e g sr sc er ec \<noteq> None"
  by (auto simp: check_word_def split: option.splits)

lemma check_word_False:
  "check_word e g sr sc er ec = Some (False, e') \<Longrightarrow>
   e' = e\<lparr>incorrect_attempts := incorrect_attempts e @ [(sr, sc, er, ec)]\<rparr>"
  by (auto simp: check_word_def split: option.splits)

lemma step_match_cases:
  "step_match e (sr, sc, er, ec) =
     (if in_bounds (board (state e)) (sr, sc, er, ec) = Some False
      then Some (Out_Of_Bounds, set_invalid_move e)
      else if (sr, sc, er, ec) \<in> set (incorrect_attempts e)
      then Some (Already_Attempted, set_invalid_move e)
      else (case check_word e (board (state e)) sr sc er ec of
              None \<Rightarrow> None
            | Some (True, e1) \<Rightarrow> Some (Correct, e1)
            | Some (False, e1) \<Rightarrow>
                Some (Incorrect,
                  if num_incorrect_tries e1 - 1 = 0
                  then set_draw (e1\<lparr>num_incorrect_tries := num_incorrect_tries e1 - 1\<rparr>)
                  else e1\<lparr>num_incorrect_tries := num_incorrect_tries e1 - 1\<rparr>)))"
  using in_bounds_total[of "board (state e)" "(sr, sc, er, ec)"]
  by (auto simp: step_match_def Let_def split: option.splits bool.splits)

lemma check_word_diagonal:
  assumes "sr \<noteq> er" "sc \<noteq> ec"
  shows "check_word e g sr sc er ec =
      Some (False, e\<lparr>incorrect_attempts := incorrect_attempts e @ [(sr, sc, er, ec)]\<rparr>)"
proof -
  have ex: "extract_word g sr sc er ec = Some []"
    using assms by (simp add: extract_word_def)
  have nm: "\<And>row col d. \<not> matches_position [] row col d sr sc er ec"
    by (auto simp: matches_position_def)
  have "find (\<lambda>(placed_word, row, col, direction).
           matches_position [] row col direction sr sc er ec) (placed_words e) = None"
    using nm by (auto simp: find_None_iff)
  then show ?thesis using ex by (simp add: check_word_def)
qed

text \<open>
  Claim C5, as the code has it, for one guess of a turn on a board whose rows have one
  length. The guess is processed (no exception), and exactly one of four verdicts results.
  It is out of bounds or already in the log of incorrect attempts: the counter of tries
  keeps its value. It is in bounds, not in the log and not matched by the verifier: the
  counter decreases by exactly 1; every in-bounds span outside the log that is neither
  horizontal nor vertical is such a guess. It is correct: the counter keeps its value. The
  episode is DRAWN after the guess exactly when it was before, or the guess was incorrect
  and brought the counter to 0; the words found play no part.
\<close>

theorem tries_budget:
  assumes rect: "list_all (\<lambda>line. length line = length (hd (board (state e)))) (board (state e))"
  shows "\<exists>v e'. step_match e (sr, sc, er, ec) = Some (v, e') \<and>
     (v = Out_Of_Bounds \<longleftrightarrow> in_bounds (board (state e)) (sr, sc, er, ec) = Some False) \<and>
     (v = Already_Attempted \<longleftrightarrow>
        in_bounds (board (state e)) (sr, sc, er, ec) = Some True \<and>
        (sr, sc, er, ec) \<in> set (incorrect_attempts e)) \<and>
     (v = Incorrect \<longleftrightarrow>
        in_bounds (board (state e)) (sr, sc, er, ec) = Some True \<and>
        (sr, sc, er, ec) \<notin> set (incorrect_attempts e) \<and>
        map_option fst (check_word e (board (state e)) sr sc er ec) = Some False) \<and>
     (sr \<noteq> er \<and> sc \<noteq> ec \<and> in_bounds (board (state e)) (sr, sc, er, ec) = Some True \<and>
        (sr, sc, er, ec) \<notin> set (incorrect_attempts e) \<longrightarrow> v = Incorrect) \<and>
     num_incorrect_tries e' =
        (if v = Incorrect then num_incorrect_tries e - 1 else num_incorrect_tries e) \<and>
     drawn (state e') = (drawn (state e) \<or> (v = Incorrect \<and> num_incorrect_tries e' = 0))"
proof -
  let ?b = "board (state e)" and ?g = "(sr, sc, er, ec)"
  consider (oob) "in_bounds ?b ?g = Some False"
    | (dup) "in_bounds ?b ?g = Some True" "?g \<in> set (incorrect_attempts e)"
    | (chk) "in_bounds ?b ?g = Some True" "?g \<notin> set (incorrect_attempts e)"
    using in_bounds_total[of ?b ?g] by (cases "in_bounds ?b ?g") auto
  then show ?thesis
  proof cases
    case oob
    then show ?thesis by (simp add: step_match_cases set_invalid_move_def)
  next
    case dup
    then show ?thesis by (simp add: step_match_cases set_invalid_move_def)
  next
    case chk
    obtain ok e1 where cw: "check_word e ?b sr sc er ec = Some (ok, e1)"
      using check_word_total[OF extract_word_total[OF chk(1) rect], of e] by (cases "check_word e ?b sr sc er ec") auto
    note fr = check_word_frame[OF cw]
    have dg: "sr \<noteq> er \<and> sc \<noteq> ec \<longrightarrow> \<not> ok"
      using cw check_word_diagonal[of sr er sc ec e ?b] by auto
    show ?thesis
    proof (cases ok)
      case True
      then show ?thesis using chk cw fr dg by (simp add: step_match_cases)
    next
      case False
      then show ?thesis using chk cw fr by (simp add: step_match_cases set_draw_def)
    qed
  qed
qed

theorem tries_budget_witness:
  "list_all (\<lambda>line. length line = length (hd (board (state demo_env)))) (board (state demo_env)) \<and>
   (\<exists>v e'. step_match demo_env (0, 0, 1, 1) = Some (v, e') \<and>
     (v = Out_Of_Bounds \<longleftrightarrow> in_bounds (board (state demo_env)) (0, 0, 1, 1) = Some False) \<and>
     (v = Already_Attempted \<longleftrightarrow>
        in_bounds (board (state demo_env)) (0, 0, 1, 1) = Some True \<and>
        (0, 0, 1, 1) \<in> set (incorrect_attempts demo_env)) \<and>
     (v = Incorrect \<longleftrightarrow>
        in_bounds (board (state demo_env)) (0, 0, 1, 1) = Some True \<and>
        (0, 0, 1, 1) \<notin> set (incorrect_attempts demo_env) \<and>
        map_option fst (check_word demo_env (board (state demo_env)) 0 0 1 1) = Some False) \<and>
     v = Incorrect \<and>
     num_incorrect_tries e' =
        (if v = Incorrect then num_incorrect_tries demo_env - 1 else num_incorrect_tries demo_env) \<and>
     drawn (state e') = (drawn (state demo_env) \<or> (v = Incorrect \<and> num_incorrect_tries e' = 0)))"
proof -
  have h: "list_all (\<lambda>line. length line = length (hd (board (state demo_env))))
             (board (state demo_env))"
    by (simp add: demo_env_def state_reset_def demo_grid_def)
  have ib: "in_bounds (board (state demo_env)) (0, 0, 1, 1) = Some True"
    by code_simp
  have na: "(0, 0, 1, 1) \<notin> set (incorrect_attempts demo_env)"
    by (simp add: demo_env_def)
  from tries_budget[OF h, of 0 0 1 1] obtain v e' where
    r: "step_match demo_env (0, 0, 1, 1) = Some (v, e')"
     "(v = Out_Of_Bounds \<longleftrightarrow> in_bounds (board (state demo_env)) (0, 0, 1, 1) = Some False)"
     "(v = Already_Attempted \<longleftrightarrow>
        in_bounds (board (state demo_env)) (0, 0, 1, 1) = Some True \<and>
        (0, 0, 1, 1) \<in> set (incorrect_attempts demo_env))"
     "(v = Incorrect \<longleftrightarrow>
        in_bounds (board (state demo_env)) (0, 0, 1, 1) = Some True \<and>
        (0, 0, 1, 1) \<notin> set (incorrect_attempts demo_env) \<and>
        map_option fst (check_word demo_env (board (state demo_env)) 0 0 1 1) = Some False)"
     "((0::int) \<noteq> 1 \<and> (0::int) \<noteq> 1 \<and> in_bounds (board (state demo_env)) (0, 0, 1, 1) = Some True \<and>
        (0, 0, 1, 1) \<notin> set (incorrect_attempts demo_env) \<longrightarrow> v = Incorrect)"
     "num_incorrect_tries e' =
        (if v = Incorrect then num_incorrect_tries demo_env - 1 else num_incorrect_tries demo_env)"
     "drawn (state e') = (drawn (state demo_env) \<or> (v = Incorrect \<and> num_incorrect_tries e' = 0))"
    by blast
  have vi: "v = Incorrect" using r(5) ib na by simp
  show ?thesis using h r vi by blast
qed

theorem invalid_guess_lowers_counter:
  "step_match (demo_env\<lparr>num_incorrect_tries := 1\<rparr>) (0, 0, 1, 1) =
     Some (Incorrect,
       set_draw (demo_env\<lparr>num_incorrect_tries := 0, incorrect_attempts := [(0, 0, 1, 1)]\<rparr>))"
  by code_simp

text \<open>
  Claim C4, as the code has it. An in-bounds guess whose span is neither horizontal nor
  vertical extracts the empty word, which matches no placed word: the verifier returns
  false, and \<^verbatim>\<open>correct_words\<close> and \<^verbatim>\<open>highlighted_positions\<close> keep their values. The guess is
  then an ordinary incorrect attempt: unless the same tuple is already in the log (the
  move is then refused as a duplicate and no counter changes), it is appended to
  \<^verbatim>\<open>incorrect_attempts\<close> and the counter of tries decreases by 1.
\<close>

theorem diagonal_guess_counts_as_incorrect:
  assumes ib: "in_bounds (board (state e)) (sr, sc, er, ec) = Some True"
    and d1: "sr \<noteq> er" and d2: "sc \<noteq> ec"
  shows "map_option fst (check_word e (board (state e)) sr sc er ec) = Some False \<and>
         (\<exists>v e'. step_match e (sr, sc, er, ec) = Some (v, e') \<and>
            correct_words e' = correct_words e \<and>
            highlighted_positions e' = highlighted_positions e \<and>
            (if (sr, sc, er, ec) \<in> set (incorrect_attempts e)
             then v = Already_Attempted \<and> incorrect_attempts e' = incorrect_attempts e \<and>
                  num_incorrect_tries e' = num_incorrect_tries e
             else v = Incorrect \<and>
                  incorrect_attempts e' = incorrect_attempts e @ [(sr, sc, er, ec)] \<and>
                  num_incorrect_tries e' = num_incorrect_tries e - 1))"
proof -
  have ex: "extract_word (board (state e)) sr sc er ec = Some []"
    using d1 d2 by (simp add: extract_word_def)
  have nm: "\<And>row col d. \<not> matches_position [] row col d sr sc er ec"
    by (auto simp: matches_position_def)
  have "find (\<lambda>(placed_word, row, col, direction).
           matches_position [] row col direction sr sc er ec) (placed_words e) = None"
    using nm by (auto simp: find_None_iff)
  then have cw: "check_word e (board (state e)) sr sc er ec =
      Some (False, e\<lparr>incorrect_attempts := incorrect_attempts e @ [(sr, sc, er, ec)]\<rparr>)"
    using ex by (simp add: check_word_def)
  show ?thesis
    using ib cw by (simp add: step_match_cases set_invalid_move_def set_draw_def)
qed

theorem diagonal_guess_counts_as_incorrect_witness:
  "in_bounds (board (state demo_env)) (0, 0, 1, 1) = Some True \<and>
   map_option fst (check_word demo_env (board (state demo_env)) 0 0 1 1) = Some False \<and>
   (\<exists>v e'. step_match demo_env (0, 0, 1, 1) = Some (v, e') \<and>
      correct_words e' = correct_words demo_env \<and>
      highlighted_positions e' = highlighted_positions demo_env \<and>
      (if (0, 0, 1, 1) \<in> set (incorrect_attempts demo_env)
       then v = Already_Attempted \<and> incorrect_attempts e' = incorrect_attempts demo_env \<and>
            num_incorrect_tries e' = num_incorrect_tries demo_env
       else v = Incorrect \<and>
            incorrect_attempts e' = incorrect_attempts demo_env @ [(0, 0, 1, 1)] \<and>
            num_incorrect_tries e' = num_incorrect_tries demo_env - 1))"
proof -
  have h: "in_bounds (board (state demo_env)) (0, 0, 1, 1) = Some True"
    by code_simp
  show ?thesis
    using h diagonal_guess_counts_as_incorrect[OF h] by simp
qed

theorem diagonal_guess_spends_a_try:
  "step_match demo_env (0, 0, 1, 1) =
     Some (Incorrect, demo_env\<lparr>num_incorrect_tries := 19, incorrect_attempts := [(0, 0, 1, 1)]\<rparr>)"
  by code_simp

lemma span_match_ignores_word_length:
  assumes "extract_word g sr sc er ec = Some w"
  shows "matches_position w row col d sr sc er ec \<longleftrightarrow>
         (d = across \<and> row = sr \<and> col = min sc ec \<and> sr = er) \<or>
         (d = down \<and> col = sc \<and> row = min sr er \<and> sc = ec)"
proof -
  note len = extract_word_length[OF assms]
  show ?thesis
  proof (cases "sr = er")
    case True
    then show ?thesis using len by (cases d) (auto simp: matches_position_def)
  next
    case False
    then show ?thesis using len by (cases d) (auto simp: matches_position_def)
  qed
qed

text \<open>
  Claim C1 fails on the code: the length compared with the span is the length of the word
  extracted from the span, not of the placed word. CAT lies across at row 2, columns 0 to
  2; the span from column 0 to column 3 of that row (four cells) is accepted as CAT.
\<close>

theorem check_word_accepts_longer_span:
  "map_option (\<lambda>(ok, e). (ok, correct_words e))
     (check_word demo_env (board (state demo_env)) 2 0 2 3) = Some (True, {''CAT''})"
  by code_simp

subsection \<open>The win condition\<close>

lemma try_positions_index:
  "try_positions w ps (g, pws) = Some (b, g', pws') \<Longrightarrow>
   (if b then pws' \<noteq> [] else pws' = pws) \<and> (pws \<noteq> [] \<longrightarrow> pws' \<noteq> []) \<and>
   (distinct (map fst pws) \<longrightarrow> distinct (map fst pws'))"
proof (induction ps)
  case Nil
  then show ?case by simp
next
  case (Cons p ps)
  obtain row col d where p: "p = (row, col, d)" by (cases p) auto
  have ne: "\<And>v. AList.update w v pws \<noteq> []" by (cases pws) auto
  show ?case
  proof (cases "can_place_word g w d row col")
    case None
    then show ?thesis using Cons.prems by (simp add: p)
  next
    case (Some ok)
    then show ?thesis using Cons ne
      by (cases ok) (auto simp: p AList.distinct_update split: option.splits)
  qed
qed

lemma empty_grid_cells:
  "grid_get (create_empty_grid n) r c = Some ch \<Longrightarrow> ch = empty_marker"
  by (auto simp: grid_get_def py_index_def create_empty_grid_def Let_def split: option.splits if_splits)

lemma can_place_letters_empty:
  assumes "\<And>r c ch. grid_get g r c = Some ch \<Longrightarrow> ch = empty_marker"
  shows "can_place_letters g d row col i w \<noteq> Some False"
proof (induction w arbitrary: i)
  case Nil
  then show ?case by simp
next
  case (Cons letter rest)
  obtain r c where rc: "cell_of d row col i = (r, c)" by (cases "cell_of d row col i") auto
  show ?case
  proof (cases "grid_get g r c")
    case None
    then show ?thesis using rc by simp
  next
    case (Some ch)
    then have "ch = empty_marker" using assms by blast
    then show ?thesis using rc Some Cons.IH by simp
  qed
qed

lemma can_place_letters_fresh:
  "can_place_letters (create_empty_grid n) d row col i w \<noteq> Some False"
  by (rule can_place_letters_empty) (rule empty_grid_cells)

lemma can_place_first:
  assumes "0 \<le> n" "int (length w) \<le> n"
  shows "(case first_position n w d of (row, col, d') \<Rightarrow>
            can_place_word (create_empty_grid n) w d' row col) \<noteq> Some False"
proof (cases d)
  case across
  have b: "(n - int (length w)) div 2 + int (length w) \<le> n" using assms by linarith
  have "\<And>line0. py_index (create_empty_grid n) 0 = Some line0 \<Longrightarrow> int (length line0) = n"
    using assms(1) by (auto simp: py_index_def create_empty_grid_def Let_def split: if_splits)
  then show ?thesis
    using across b can_place_letters_fresh[of n across]
    by (auto simp: first_position_def can_place_word_def split: option.splits)
next
  case down
  have b: "(n - int (length w)) div 2 + int (length w) \<le> n" using assms by linarith
  have "int (length (create_empty_grid n)) = n" using assms(1) by (simp add: create_empty_grid_def)
  then show ?thesis
    using down b can_place_letters_fresh[of n down]
    by (auto simp: first_position_def can_place_word_def)
qed

lemma place_word_index:
  assumes "place_word rnd dirs n k w (g, pws) = Some (g', pws')"
  shows "(pws \<noteq> [] \<longrightarrow> pws' \<noteq> []) \<and> (distinct (map fst pws) \<longrightarrow> distinct (map fst pws'))"
proof -
  from assms obtain d where d: "map_of dirs w = Some d"
    by (auto simp: place_word_def split: option.splits)
  define attempt where "attempt = (if pws = [] then try_positions w [first_position n w d] (g, pws)
                 else (case find_overlaps pws w g dirs of
                         None \<Rightarrow> None
                       | Some possible_positions \<Rightarrow>
                           try_positions w
                             (py_shuffle (shuffle_draw rnd k) possible_positions) (g, pws)))"
  from assms d obtain b g1 pws1 where a: "attempt = Some (b, g1, pws1)"
    by (cases attempt) (auto simp: place_word_def attempt_def split: option.splits)
  have one: "(pws \<noteq> [] \<longrightarrow> pws1 \<noteq> []) \<and> (distinct (map fst pws) \<longrightarrow> distinct (map fst pws1))"
    using a try_positions_index unfolding attempt_def
    by (auto split: if_splits option.splits)
  show ?thesis
  proof (cases b)
    case True
    then have "(g', pws') = (g1, pws1)"
      using assms d a by (auto simp: place_word_def attempt_def split: if_splits)
    then show ?thesis using one by simp
  next
    case False
    then obtain b2 where "try_positions w (scan_positions n d) (g1, pws1) = Some (b2, g', pws')"
      using assms d a by (auto simp: place_word_def attempt_def split: if_splits option.splits)
    then show ?thesis using try_positions_index one by blast
  qed
qed

lemma place_word_first:
  assumes "place_word rnd dirs n k w (create_empty_grid n, []) = Some (g', pws')"
    and "0 \<le> n" "int (length w) \<le> n"
  shows "pws' \<noteq> []"
proof -
  from assms(1) obtain d where d: "map_of dirs w = Some d"
    by (auto simp: place_word_def split: option.splits)
  obtain row col d' where fp: "first_position n w d = (row, col, d')"
    by (cases "first_position n w d") auto
  have nf: "can_place_word (create_empty_grid n) w d' row col \<noteq> Some False"
    using can_place_first[OF assms(2,3), of d] fp by simp
  from assms(1) d obtain b g1 pws1 where
    a: "try_positions w [first_position n w d] (create_empty_grid n, []) = Some (b, g1, pws1)"
    by (auto simp: place_word_def split: option.splits)
  have "b" using a nf fp by (auto split: option.splits bool.splits)
  then have "pws1 \<noteq> []" "(g', pws') = (g1, pws1)"
    using try_positions_index[OF a] assms(1) d a by (auto simp: place_word_def)
  then show ?thesis by simp
qed

lemma place_words_index:
  "place_words rnd dirs n k ws (g, pws) = Some (g', pws') \<Longrightarrow>
   (pws \<noteq> [] \<longrightarrow> pws' \<noteq> []) \<and> (distinct (map fst pws) \<longrightarrow> distinct (map fst pws'))"
proof (induction ws arbitrary: g pws k)
  case Nil
  then show ?case by simp
next
  case (Cons w ws)
  from Cons.prems obtain g1 pws1 where
    one: "place_word rnd dirs n k w (g, pws) = Some (g1, pws1)" and
    rest: "place_words rnd dirs n (Suc k) ws (g1, pws1) = Some (g', pws')"
    by (auto split: option.splits)
  show ?case using place_word_index[OF one] Cons.IH[OF rest] by blast
qed

lemma generated_index:
  assumes gen: "generate_word_search rnd e = Some (grid, e')"
  shows "placed_words e' \<noteq> [] \<and> distinct (map fst (placed_words e')) \<and> correct_words e' = {}
         \<and> state e' = state e \<and> num_incorrect_tries e' = num_incorrect_tries e"
proof -
  define ws where "ws = sort_key (\<lambda>w. - int (length w)) (map (str_upper rnd) (sampled rnd))"
  from gen obtain n g1 pws where
    n: "determine_initial_grid_size ws = Some n" and
    pl: "place_words rnd (choose_directions rnd ws) n 0 ws (create_empty_grid n, []) = Some (g1, pws)" and
    e': "placed_words e' = pws" "correct_words e' = {}" "state e' = state e"
      "num_incorrect_tries e' = num_incorrect_tries e"
    by (auto simp: generate_word_search_def Let_def ws_def split: option.splits prod.splits)
  have wsne: "ws \<noteq> []" and nval: "n = py_round (of_nat (Max (set (map length ws))) * (3 / 2))"
    using n by (auto simp: determine_initial_grid_size_def py_max_eq split: if_splits)
  have n0: "0 \<le> n"
    unfolding nval using grid_size_ge[of "Max (set (map length ws))"] by simp
  obtain w rest where ws: "ws = w # rest" using wsne by (cases ws) auto
  have "length w \<le> Max (set (map length ws))" using ws by simp
  then have lw: "int (length w) \<le> n"
    unfolding nval using grid_size_ge[of "Max (set (map length ws))"] by linarith
  from pl ws obtain g0 pws0 where
    one: "place_word rnd (choose_directions rnd ws) n 0 w (create_empty_grid n, []) = Some (g0, pws0)" and
    more: "place_words rnd (choose_directions rnd ws) n (Suc 0) rest (g0, pws0) = Some (g1, pws)"
    by (auto split: option.splits)
  have "pws0 \<noteq> []" using place_word_first[OF one n0 lw] .
  moreover have "distinct (map fst pws0)" using place_word_index[OF one] by simp
  ultimately have "pws \<noteq> []" "distinct (map fst pws)"
    using place_words_index[OF more] by simp_all
  then show ?thesis using e' by simp
qed

lemma reset_index:
  assumes "reset rnd e0 = Some e"
  shows "placed_words e \<noteq> [] \<and> distinct (map fst (placed_words e)) \<and> correct_words e = {}
         \<and> \<not> won (state e)"
proof -
  from assms obtain grid e1 where g: "generate_word_search rnd e0 = Some (grid, e1)"
    and e: "e = e1\<lparr>game_board := grid, state := state_reset grid\<rparr>"
    by (auto simp: reset_def split: option.splits)
  show ?thesis using generated_index[OF g] by (simp add: e state_reset_def)
qed

lemma find_Some_in: "find P xs = Some x \<Longrightarrow> x \<in> set xs"
  by (induction xs) (auto split: if_splits)

lemma highlight_word_correct_words:
  "correct_words (highlight_word e sr sc er ec) = correct_words e"
  by (simp add: highlight_word_def)

lemma check_word_correct_words:
  assumes "check_word e g sr sc er ec = Some (ok, e')"
  shows "correct_words e \<subseteq> correct_words e' \<and>
         correct_words e' \<subseteq> correct_words e \<union> fst ` set (placed_words e)"
proof -
  from assms obtain w where w: "extract_word g sr sc er ec = Some w"
    by (auto simp: check_word_def split: option.splits)
  let ?f = "find (\<lambda>(placed_word, row, col, direction).
                matches_position w row col direction sr sc er ec) (placed_words e)"
  show ?thesis
  proof (cases ?f)
    case None
    then have "correct_words e' = correct_words e"
      using assms w by (auto simp: check_word_def)
    then show ?thesis by simp
  next
    case (Some x)
    obtain pw p where x: "x = (pw, p)" by (cases x) auto
    have "(pw, p) \<in> set (placed_words e)" using find_Some_in[OF Some] x by simp
    then have "pw \<in> fst ` set (placed_words e)" by force
    moreover have "correct_words e' = insert pw (correct_words e)"
      using assms w Some x by (auto simp: check_word_def highlight_word_correct_words)
    ultimately show ?thesis by auto
  qed
qed

lemma step_match_frame:
  assumes "step_match e g = Some (v, e')"
  shows "placed_words e' = placed_words e \<and> won (state e') = won (state e) \<and>
         correct_words e \<subseteq> correct_words e' \<and>
         correct_words e' \<subseteq> correct_words e \<union> fst ` set (placed_words e)"
proof -
  obtain sr sc er ec where g: "g = (sr, sc, er, ec)" by (cases g) auto
  let ?b = "board (state e)"
  consider (inv) "e' = set_invalid_move e"
    | (chk) ok e1 where "check_word e ?b sr sc er ec = Some (ok, e1)"
        "e' = e1 \<or> e' = e1\<lparr>num_incorrect_tries := num_incorrect_tries e1 - 1\<rparr> \<or>
         e' = set_draw (e1\<lparr>num_incorrect_tries := num_incorrect_tries e1 - 1\<rparr>)"
    using assms unfolding g step_match_cases
    by (auto split: if_splits option.splits bool.splits)
  then show ?thesis
  proof cases
    case inv
    then show ?thesis by (simp add: set_invalid_move_def)
  next
    case chk
    note fr = check_word_frame[OF chk(1)] and cw = check_word_correct_words[OF chk(1)]
    from chk(2) show ?thesis
      using fr cw by (auto simp: set_draw_def)
  qed
qed

lemma step_matches_frame:
  "step_matches e gs = Some e' \<Longrightarrow>
   placed_words e' = placed_words e \<and> won (state e') = won (state e) \<and>
   correct_words e \<subseteq> correct_words e' \<and>
   correct_words e' \<subseteq> correct_words e \<union> fst ` set (placed_words e)"
proof (induction gs arbitrary: e)
  case Nil
  then show ?case by simp
next
  case (Cons g gs)
  from Cons.prems obtain v e1 where one: "step_match e g = Some (v, e1)"
    by (auto split: option.splits)
  note f1 = step_match_frame[OF one]
  show ?case
  proof (cases "v = Correct")
    case True
    then have "step_matches e1 gs = Some e'" using Cons.prems one by simp
    from Cons.IH[OF this] f1 show ?thesis by auto
  next
    case False
    then have "e' = e1" using Cons.prems one by (cases v) auto
    then show ?thesis using f1 by simp
  qed
qed

lemma card_le_index:
  assumes "cw \<subseteq> fst ` set pws" "distinct (map fst pws)"
  shows "card cw \<le> length pws"
proof -
  have "card cw \<le> card (fst ` set pws)" using assms(1) by (simp add: card_mono)
  also have "\<dots> = card (set (map fst pws))" by simp
  also have "\<dots> = length pws" using assms(2) distinct_card by fastforce
  finally show ?thesis .
qed

lemma step_index_inv:
  assumes inv: "index_inv e" and st: "step e matches = Some e'"
  shows "index_inv e'"
proof (cases "matches = []")
  case True
  then show ?thesis using inv st by (auto simp: step_def set_invalid_move_def index_inv_def)
next
  case False
  then obtain e1 where m: "step_matches e matches = Some e1"
    and e': "e' = (if is_game_over e1 then set_winners e1 else e1)"
    using st by (auto simp: step_def split: option.splits)
  note f = step_matches_frame[OF m]
  have sub: "correct_words e1 \<subseteq> fst ` set (placed_words e1)"
    using f inv by (auto simp: index_inv_def)
  have dis: "distinct (map fst (placed_words e1))" using f inv by (simp add: index_inv_def)
  have le: "card (correct_words e1) \<le> length (placed_words e1)"
    using card_le_index[OF sub dis] .
  have fin: "finite (correct_words e1)" using sub finite_surj by blast
  have mono: "card (correct_words e) \<le> card (correct_words e1)"
    using f fin by (simp add: card_mono)
  have keep: "won (state e) \<longrightarrow> card (correct_words e1) = length (placed_words e1)"
    using inv f mono le by (auto simp: index_inv_def)
  show ?thesis
    using sub dis keep f unfolding e' index_inv_def
    by (auto simp: is_game_over_def set_winners_def)
qed

lemma reachable_index_inv: "reachable e \<Longrightarrow> index_inv e"
proof (induction rule: reachable.induct)
  case (after_reset rnd e0 e)
  then show ?case using reset_index[OF after_reset] by (auto simp: index_inv_def)
next
  case (after_step e matches e')
  then show ?case using step_index_inv by blast
qed

text \<open>
  Claim C6. In every environment reachable by resets and turns, the episode is WON exactly
  when \<^verbatim>\<open>correct_words\<close> has as many words as the placement index; while it is not WON,
  \<^verbatim>\<open>correct_words\<close> has fewer words than the index; and after every turn from there the
  episode is WON exactly when the two numbers are equal.
\<close>

theorem win_condition:
  assumes "reachable e"
  shows "(won (state e) \<longleftrightarrow> card (correct_words e) = length (placed_words e)) \<and>
         (\<not> won (state e) \<longrightarrow> card (correct_words e) < length (placed_words e)) \<and>
         (\<forall>matches e'. step e matches = Some e' \<longrightarrow>
            (won (state e') \<longleftrightarrow> card (correct_words e') = length (placed_words e')))"
proof -
  have i: "index_inv e" using assms by (rule reachable_index_inv)
  have le: "card (correct_words e) \<le> length (placed_words e)"
    using i card_le_index[of "correct_words e" "placed_words e"] by (simp add: index_inv_def)
  have "\<forall>matches e'. step e matches = Some e' \<longrightarrow>
            (won (state e') \<longleftrightarrow> card (correct_words e') = length (placed_words e'))"
    using step_index_inv[OF i] by (auto simp: index_inv_def)
  then show ?thesis using i le by (auto simp: index_inv_def)
qed

lemma step_demo_won: "step demo_env [(2, 0, 2, 2)] = Some demo_won"
  by code_simp

theorem win_condition_witness:
  "reachable demo_won \<and> \<not> won (state demo_env) \<and>
   step demo_env [(2, 0, 2, 2)] = Some demo_won \<and>
   (won (state demo_won) \<longleftrightarrow> card (correct_words demo_won) = length (placed_words demo_won)) \<and>
   won (state demo_won)"
proof -
  have r0: "reachable demo_env" using reset_demo by (rule after_reset)
  have r: "reachable demo_won" using r0 step_demo_won by (rule after_step)
  have nw: "\<not> won (state demo_env)" by (simp add: demo_env_def state_reset_def)
  have w: "won (state demo_won)" by (simp add: demo_won_def set_winners_def)
  show ?thesis using r nw step_demo_won w win_condition[OF r] by blast
qed

subsection \<open>Generation returns\<close>

lemma square_in_grid:
  assumes "map length g = replicate (nat n) (nat n)"
  shows "in_grid g (r, c) \<longleftrightarrow> 0 \<le> r \<and> r < n \<and> 0 \<le> c \<and> c < n"
proof -
  have l: "length g = nat n" using arg_cong[OF assms, of length] by simp
  have "\<And>j. j < nat n \<Longrightarrow> length (g ! j) = nat n"
    using assms l by (metis nth_map nth_replicate)
  then show ?thesis using l by (auto simp: in_grid_def)
qed

lemma can_place_letters_total:
  "(\<forall>k<length w. in_grid g (cell_of d row col (i + int k))) \<Longrightarrow>
   can_place_letters g d row col i w \<noteq> None"
proof (induction w arbitrary: i)
  case Nil
  then show ?case by simp
next
  case (Cons letter rest)
  obtain r c where rc: "cell_of d row col i = (r, c)" by (cases "cell_of d row col i") auto
  have "in_grid g (cell_of d row col (i + int 0))" using Cons.prems by blast
  then have get: "grid_get g r c = Some (cell_at g (r, c))"
    using rc grid_get_in_grid by simp
  have "\<forall>k<length rest. in_grid g (cell_of d row col (i + 1 + int k))"
  proof (intro allI impI)
    fix k assume "k < length rest"
    then have "Suc k < length (letter # rest)" by simp
    then have "in_grid g (cell_of d row col (i + int (Suc k)))" using Cons.prems by blast
    moreover have "i + int (Suc k) = i + 1 + int k" by simp
    ultimately show "in_grid g (cell_of d row col (i + 1 + int k))" by (simp add: add.assoc)
  qed
  then have "can_place_letters g d row col (i + 1) rest \<noteq> None" by (rule Cons.IH)
  then show ?case using rc get by auto
qed

lemma place_letters_total:
  "(\<forall>k<length w. in_grid g (cell_of d row col (i + int k))) \<Longrightarrow>
   place_letters g d row col i w \<noteq> None"
proof (induction w arbitrary: i g)
  case Nil
  then show ?case by simp
next
  case (Cons letter rest)
  obtain r c where rc: "cell_of d row col i = (r, c)" by (cases "cell_of d row col i") auto
  have "in_grid g (cell_of d row col (i + int 0))" using Cons.prems by blast
  then have ig: "in_grid g (r, c)" using rc by simp
  let ?g1 = "g[nat r := (g ! nat r)[nat c := letter]]"
  have set1: "grid_set g r c letter = Some ?g1"
    using ig by (simp add: in_grid_def grid_set_in_range)
  have sh: "map length ?g1 = map length g" using grid_set_shape[OF set1] .
  have "\<forall>k<length rest. in_grid ?g1 (cell_of d row col (i + 1 + int k))"
  proof (intro allI impI)
    fix k assume "k < length rest"
    then have "Suc k < length (letter # rest)" by simp
    then have "in_grid g (cell_of d row col (i + int (Suc k)))" using Cons.prems by blast
    moreover have "i + int (Suc k) = i + 1 + int k" by simp
    ultimately show "in_grid ?g1 (cell_of d row col (i + 1 + int k))"
      using in_grid_shape[OF sh] by (simp add: add.assoc)
  qed
  then have "place_letters ?g1 d row col (i + 1) rest \<noteq> None" by (rule Cons.IH)
  then show ?case using rc set1 by simp
qed

lemma can_place_word_total:
  assumes sq: "map length g = replicate (nat n) (nat n)" and v: "valid_pos n (row, col, d)"
  shows "can_place_word g w d row col \<noteq> None"
proof -
  from v have b: "0 \<le> row" "row < n" "0 \<le> col" "col < n" by (simp_all add: valid_pos_def)
  have l: "length g = nat n" using arg_cong[OF sq, of length] by simp
  have g0: "g \<noteq> []" using l b by auto
  have "hd (map length g) = nat n"
    unfolding sq using l g0 by (cases "nat n") auto
  then have l0: "length (hd g) = nat n"
    using g0 by (simp add: hd_map)
  have p0: "py_index g 0 = Some (hd g)"
    using g0 by (cases g) (simp_all add: py_index_def)
  show ?thesis
  proof (cases d)
    case across
    show ?thesis
    proof (cases "col + int (length w) > n")
      case True
      then show ?thesis using across p0 l0 b by (simp add: can_place_word_def)
    next
      case False
      then have "\<forall>k<length w. in_grid g (cell_of across row col (0 + int k))"
        using b by (auto simp: square_in_grid[OF sq])
      then have "can_place_letters g across row col 0 w \<noteq> None"
        by (rule can_place_letters_total)
      then show ?thesis using across p0 by (auto simp: can_place_word_def)
    qed
  next
    case down
    show ?thesis
    proof (cases "row + int (length w) > n")
      case True
      then show ?thesis using down l b by (simp add: can_place_word_def)
    next
      case False
      then have "\<forall>k<length w. in_grid g (cell_of down row col (0 + int k))"
        using b by (auto simp: square_in_grid[OF sq])
      then have "can_place_letters g down row col 0 w \<noteq> None"
        by (rule can_place_letters_total)
      then show ?thesis using down by (auto simp: can_place_word_def)
    qed
  qed
qed

lemma place_word_on_grid_total:
  assumes "can_place_word g w d row col = Some True" "0 \<le> row" "0 \<le> col"
  shows "place_word_on_grid g w d row col \<noteq> None"
proof -
  have "\<forall>k<length w. in_grid g (cell_of d row col (0 + int k))"
    using can_place_letters_True[OF can_place_word_True[OF assms(1)] assms(2,3)] by simp
  then show ?thesis unfolding place_word_on_grid_def by (rule place_letters_total)
qed

lemma try_positions_total:
  assumes sq: "map length g = replicate (nat n) (nat n)" and v: "list_all (valid_pos n) ps"
  shows "try_positions w ps (g, pws) \<noteq> None"
  using v
proof (induction ps)
  case Nil
  then show ?case by simp
next
  case (Cons p ps)
  obtain row col d where p: "p = (row, col, d)" by (cases p) auto
  from Cons.prems have vp: "valid_pos n (row, col, d)" and rest: "list_all (valid_pos n) ps"
    by (simp_all add: p)
  from vp have nn: "0 \<le> row" "0 \<le> col" by (simp_all add: valid_pos_def)
  obtain ok where ok: "can_place_word g w d row col = Some ok"
    using can_place_word_total[OF sq vp, of w] by auto
  show ?case
  proof (cases ok)
    case True
    then show ?thesis using ok place_word_on_grid_total[OF _ nn, of g w d] by (auto simp: p)
  next
    case False
    then show ?thesis using ok Cons.IH[OF rest] by (simp add: p)
  qed
qed

lemma those_None_iff: "those xs = None \<longleftrightarrow> None \<in> set xs"
  by (induction xs) (auto split: option.splits)

lemma square_dims:
  assumes sq: "map length g = replicate (nat n) (nat n)" and "0 < n"
  shows "int (length g) = n \<and> int (length (hd g)) = n"
proof -
  have l: "length g = nat n" using arg_cong[OF sq, of length] by simp
  have g0: "g \<noteq> []" using l assms(2) by auto
  have "hd (map length g) = nat n"
    unfolding sq using l g0 by (cases "nat n") auto
  then have "length (hd g) = nat n" using g0 by (simp add: hd_map)
  then show ?thesis using l assms(2) by simp
qed

lemma overlap_candidate_total:
  assumes sq: "map length g = replicate (nat n) (nat n)" and d: "map_of dirs word \<noteq> None"
  shows "overlap_candidate g dirs word p i letter j placed_letter \<noteq> None"
proof -
  obtain p_row p_col p_d where p: "p = (p_row, p_col, p_d)" by (cases p) auto
  obtain wd where wd: "map_of dirs word = Some wd" using d by auto
  have cp: "\<And>row col d'. 0 \<le> row \<Longrightarrow> row < int (length g) \<Longrightarrow> 0 \<le> col \<Longrightarrow>
      col < int (length (hd g)) \<Longrightarrow> can_place_word g word d' row col \<noteq> None"
  proof -
    fix row col d'
    assume b: "0 \<le> row" "row < int (length g)" "0 \<le> col" "col < int (length (hd g))"
    have "length g = nat n" using arg_cong[OF sq, of length] by simp
    then have "row < int (nat n)" using b by simp
    then have "0 < n" using b(1) by arith
    from square_dims[OF sq this] b have "valid_pos n (row, col, d')" by (simp add: valid_pos_def)
    then show "can_place_word g word d' row col \<noteq> None" by (rule can_place_word_total[OF sq])
  qed
  show ?thesis
  proof (cases p_d)
    case across
    then show ?thesis using wd cp[of "p_row - i" "p_col + j" down]
      by (auto simp: overlap_candidate_def p Let_def split: option.splits)
  next
    case down
    then show ?thesis using wd cp[of "p_row + j" "p_col - i" across]
      by (auto simp: overlap_candidate_def p Let_def split: option.splits)
  qed
qed

lemma overlap_candidate_valid:
  assumes sq: "map length g = replicate (nat n) (nat n)"
    and c: "overlap_candidate g dirs word p i letter j placed_letter = Some l"
  shows "list_all (valid_pos n) l"
proof (cases "l = []")
  case True
  then show ?thesis by simp
next
  case False
  obtain p_row p_col p_d where p: "p = (p_row, p_col, p_d)" by (cases p) auto
  from c False obtain row col d' where l: "l = [(row, col, d')]"
    and b: "0 \<le> row" "row < int (length g)" "0 \<le> col" "col < int (length (hd g))"
    by (cases p_d)
      (auto simp: overlap_candidate_def p Let_def split: option.splits if_splits)
  have "length g = nat n" using arg_cong[OF sq, of length] by simp
  then have "row < int (nat n)" using b by simp
  then have "0 < n" using b(1) by arith
  from square_dims[OF sq this] b show ?thesis by (simp add: l valid_pos_def)
qed

lemma find_overlaps_total:
  assumes sq: "map length g = replicate (nat n) (nat n)" and d: "map_of dirs word \<noteq> None"
  shows "\<exists>ps. find_overlaps pws word g dirs = Some ps \<and> list_all (valid_pos n) ps"
proof -
  let ?cands = "concat (map (\<lambda>(placed_word, p).
        concat (map (\<lambda>(i, letter).
          map (\<lambda>(j, placed_letter). overlap_candidate g dirs word p i letter j placed_letter)
            (py_enumerate placed_word))
          (py_enumerate word))) pws)"
  have mem: "\<And>x. x \<in> set ?cands \<Longrightarrow>
      \<exists>p i letter j placed_letter. x = overlap_candidate g dirs word p i letter j placed_letter"
    by auto blast
  have "None \<notin> set ?cands"
  proof
    assume "None \<in> set ?cands"
    from mem[OF this] show False using overlap_candidate_total[OF sq d] by metis
  qed
  then have "those ?cands \<noteq> None"
    by (simp only: those_None_iff not_False_eq_True)
  then obtain ls where ls: "those ?cands = Some ls" by blast
  have "\<And>l. l \<in> set ls \<Longrightarrow> list_all (valid_pos n) l"
  proof -
    fix l assume "l \<in> set ls"
    then have "Some l \<in> set ?cands" using those_Some_set[OF ls] by simp
    from mem[OF this] show "list_all (valid_pos n) l"
      using overlap_candidate_valid[OF sq] by metis
  qed
  then have "list_all (valid_pos n) (concat ls)" by (auto simp: list_all_iff)
  then show ?thesis using ls by (simp add: find_overlaps_def)
qed

lemma scan_positions_valid: "list_all (valid_pos n) (scan_positions n d)"
  by (auto simp: scan_positions_def list_all_iff valid_pos_def py_range_def)

lemma first_position_valid:
  "0 < n \<Longrightarrow> int (length word) \<le> n \<Longrightarrow> valid_pos n (first_position n word d)"
  by (cases d) (auto simp: first_position_def valid_pos_def)

lemma place_word_total:
  assumes sq: "map length g = replicate (nat n) (nat n)" and d: "map_of dirs word \<noteq> None"
    and n: "0 < n" and len: "int (length word) \<le> n"
  shows "place_word rnd dirs n k word (g, pws) \<noteq> None"
proof -
  obtain wd where wd: "map_of dirs word = Some wd" using d by auto
  define attempt where "attempt = (if pws = [] then try_positions word [first_position n word wd] (g, pws)
                 else (case find_overlaps pws word g dirs of
                         None \<Rightarrow> None
                       | Some possible_positions \<Rightarrow>
                           try_positions word
                             (py_shuffle (shuffle_draw rnd k) possible_positions) (g, pws)))"
  have "attempt \<noteq> None"
  proof (cases "pws = []")
    case True
    have "list_all (valid_pos n) [first_position n word wd]"
      using first_position_valid[OF n len] by simp
    then show ?thesis using True try_positions_total[OF sq] by (simp add: attempt_def)
  next
    case False
    obtain ps where ps: "find_overlaps pws word g dirs = Some ps" "list_all (valid_pos n) ps"
      using find_overlaps_total[OF sq d] by blast
    have "list_all (valid_pos n) (py_shuffle (shuffle_draw rnd k) ps)"
      using ps(2) by (simp add: list_all_iff py_shuffle_set)
    then show ?thesis using False ps(1) try_positions_total[OF sq] by (simp add: attempt_def)
  qed
  then obtain b g1 pws1 where a: "attempt = Some (b, g1, pws1)" by (cases attempt) auto
  have sq1: "map length g1 = replicate (nat n) (nat n)"
    using a try_positions_shape sq unfolding attempt_def
    by (auto split: if_splits option.splits)
  have "try_positions word (scan_positions n wd) (g1, pws1) \<noteq> None"
    using try_positions_total[OF sq1 scan_positions_valid] .
  then show ?thesis using wd a
    by (cases b) (auto simp: place_word_def attempt_def split: if_splits)
qed

lemma place_words_total:
  assumes "map length g = replicate (nat n) (nat n)"
    and "\<forall>w\<in>set ws. map_of dirs w \<noteq> None \<and> int (length w) \<le> n" and n: "0 < n"
  shows "place_words rnd dirs n k ws (g, pws) \<noteq> None"
  using assms(1,2)
proof (induction ws arbitrary: g pws k)
  case Nil
  then show ?case by simp
next
  case (Cons w ws)
  obtain g1 pws1 where one: "place_word rnd dirs n k w (g, pws) = Some (g1, pws1)"
    using place_word_total[OF Cons.prems(1) _ n, of dirs w rnd k pws] Cons.prems(2) by auto
  have "map length g1 = replicate (nat n) (nat n)"
    using place_word_shape[OF one] Cons.prems(1) by simp
  then have "place_words rnd dirs n (Suc k) ws (g1, pws1) \<noteq> None"
    using Cons.IH Cons.prems(2) by simp
  then show ?case using one by simp
qed

lemma fold_update_keys:
  "fst ` set (fold (\<lambda>(k, word). AList.update word (f k)) xs acc) = fst ` set acc \<union> snd ` set xs"
proof (induction xs arbitrary: acc)
  case Nil
  then show ?case by simp
next
  case (Cons x xs)
  obtain k word where x: "x = (k, word)" by (cases x) auto
  show ?case using Cons.IH[of "AList.update word (f k) acc"]
    by (auto simp: x AList.dom_update)
qed

lemma choose_directions_keys: "w \<in> set ws \<Longrightarrow> map_of (choose_directions rnd ws) w \<noteq> None"
proof -
  assume w: "w \<in> set ws"
  have "snd ` set (zip [0..<length ws] ws) = set ws"
    by (metis length_upt diff_zero map_snd_zip set_map)
  then have "w \<in> fst ` set (choose_directions rnd ws)"
    unfolding choose_directions_def
    using w fold_update_keys[of "\<lambda>k. py_choice [across, down] (direction_draw rnd k)"
        "zip [0..<length ws] ws" "[]"]
    by simp
  then show ?thesis by (simp add: map_of_eq_None_iff)
qed

lemma generation_returns:
  assumes "\<exists>w\<in>set (sampled rnd). str_upper rnd w \<noteq> []"
  shows "\<exists>grid e'. generate_word_search rnd e = Some (grid, e')"
proof -
  define ws where "ws = sort_key (\<lambda>w. - int (length w)) (map (str_upper rnd) (sampled rnd))"
  from assms obtain w0 where w0: "w0 \<in> set (sampled rnd)" "str_upper rnd w0 \<noteq> []" by blast
  have uw: "str_upper rnd w0 \<in> set ws" using w0 by (simp add: ws_def)
  then have wsne: "ws \<noteq> []" by auto
  define n where "n = py_round (of_nat (Max (set (map length ws))) * (3 / 2))"
  have nsz: "determine_initial_grid_size ws = Some n"
    using wsne by (simp add: determine_initial_grid_size_def py_max_eq n_def)
  have "length (str_upper rnd w0) \<le> Max (set (map length ws))" using uw by simp
  moreover have "0 < length (str_upper rnd w0)" using w0(2) by simp
  ultimately have "1 \<le> Max (set (map length ws))" by linarith
  then have n1: "0 < n"
    unfolding n_def using grid_size_ge[of "Max (set (map length ws))"] by linarith
  have lens: "\<forall>w\<in>set ws. int (length w) \<le> n"
  proof
    fix w assume "w \<in> set ws"
    then have "length w \<le> Max (set (map length ws))" by simp
    then show "int (length w) \<le> n"
      unfolding n_def using grid_size_ge[of "Max (set (map length ws))"] by linarith
  qed
  have dirs: "\<forall>w\<in>set ws. map_of (choose_directions rnd ws) w \<noteq> None"
    using choose_directions_keys by blast
  obtain g1 pws where pl:
    "place_words rnd (choose_directions rnd ws) n 0 ws (create_empty_grid n, []) = Some (g1, pws)"
    using place_words_total[OF create_empty_grid_shape _ n1, of ws "choose_directions rnd ws" rnd 0 "[]"]
      lens dirs by auto
  have "map length g1 = replicate (nat n) (nat n)"
    using place_words_shape[OF pl] create_empty_grid_shape by simp
  then have "list_all (\<lambda>line. length line = length (hd g1)) g1" by (rule square_rect)
  from fill_empty_cells_frame[OF this, of rnd] obtain grid where
    "fill_empty_cells rnd g1 = Some grid" by blast
  then show ?thesis using nsz pl
    by (simp add: generate_word_search_def Let_def ws_def[symmetric])
qed

text \<open>
  Claim C3, as the code has it. Whenever generation returns, \<^verbatim>\<open>self.words\<close> is the sampled
  list uppercased and sorted, it is not empty, and the grid is square: its number of rows
  is Python's \<^verbatim>\<open>round(max_length * 1.5)\<close> for the longest of these uppercased words, which
  rounds a tie to the even neighbour, and every row is as long as the grid has rows. And
  generation does return (no exception) whenever some uppercased word is not empty.
\<close>

theorem generated_grid_square:
  "(\<forall>grid e'. generate_word_search rnd e = Some (grid, e') \<longrightarrow>
      words e' = sort_key (\<lambda>w. - int (length w)) (map (str_upper rnd) (sampled rnd)) \<and>
      words e' \<noteq> [] \<and>
      int (length grid) = py_round (of_nat (Max (length ` set (words e'))) * (3 / 2)) \<and>
      list_all (\<lambda>line. length line = length grid) grid) \<and>
   ((\<exists>w\<in>set (sampled rnd). str_upper rnd w \<noteq> []) \<longrightarrow>
      (\<exists>grid e'. generate_word_search rnd e = Some (grid, e')))"
  using generated_shape generation_returns by blast

theorem generated_grid_square_witness:
  "generate_word_search demo_source init =
     Some (demo_grid, demo_env\<lparr>game_board := [], state := state_reset []\<rparr>) \<and>
   sampled demo_source = [''cat''] \<and> str_upper demo_source ''cat'' = ''CAT'' \<and>
   words (demo_env\<lparr>game_board := [], state := state_reset []\<rparr>) = [''CAT''] \<and>
   int (length demo_grid) = py_round (of_nat (Max (length ` set [''CAT''])) * (3 / 2)) \<and>
   int (length demo_grid) = 4 \<and>
   list_all (\<lambda>line. length line = length demo_grid) demo_grid \<and>
   (\<exists>grid e'. generate_word_search demo_source init = Some (grid, e'))"
proof -
  have s: "sampled demo_source = [''cat'']" by (simp add: demo_source_def)
  have u: "str_upper demo_source ''cat'' = ''CAT''" by code_simp
  have w: "words (demo_env\<lparr>game_board := [], state := state_reset []\<rparr>) = [''CAT'']"
    by (simp add: demo_env_def)
  have l: "int (length demo_grid) = 4" by (simp add: demo_grid_def)
  have "words (demo_env\<lparr>game_board := [], state := state_reset []\<rparr>) \<noteq> [] \<and>
      int (length demo_grid) =
        py_round (of_nat (Max (length ` set (words (demo_env\<lparr>game_board := [], state := state_reset []\<rparr>)))) * (3 / 2)) \<and>
      list_all (\<lambda>line. length line = length demo_grid) demo_grid"
    using generate_demo generated_grid_square[of demo_source init] by blast
  then show ?thesis using s u w l generate_demo by simp
qed

theorem grid_size_not_half_up:
  "map_option (length \<circ> fst) (generate_word_search demo_source init) = Some 4 \<and>
   round_half_up (of_nat (length ''cat'') * (3 / 2)) = 5"
proof
  show "map_option (length \<circ> fst) (generate_word_search demo_source init) = Some 4"
    by (simp add: generate_demo demo_grid_def)
  show "round_half_up (of_nat (length ''cat'') * (3 / 2)) = 5"
    by code_simp
qed

subsection \<open>What a reset keeps\<close>

lemma reset_keeps_counter:
  assumes "reset rnd e = Some e'"
  shows "num_incorrect_tries e' = num_incorrect_tries e"
proof -
  from assms obtain grid e1 where g: "generate_word_search rnd e = Some (grid, e1)"
    and e': "e' = e1\<lparr>game_board := grid, state := state_reset grid\<rparr>"
    by (auto simp: reset_def split: option.splits)
  show ?thesis using generated_index[OF g] by (simp add: e')
qed

end
